theory Spec2Isabelle
  imports Main "HOL-Library.Word" "HOL-Library.AList"
begin

unbundle bit_operations_syntax

section \<open>Tags, kinds and values\<close>

text \<open>
  \<^verbatim>\<open>type Tag byte\<close> with the thirteen constants of the \<^verbatim>\<open>iota\<close> block, and
  \<^verbatim>\<open>type Compression byte\<close> with \<^verbatim>\<open>Uncompressed\<close>, \<^verbatim>\<open>GZip\<close>, \<^verbatim>\<open>ZLib\<close>.
  The constants unfold to their numbers under simplification.
  A Go \<^verbatim>\<open>string\<close> is a sequence of bytes (\<^verbatim>\<open>len\<close> counts bytes), so strings,
  tag names and map keys are byte lists.
\<close>

type_synonym byte = "8 word"
type_synonym Tag = "8 word"
type_synonym Compression = "8 word"
type_synonym gostring = "byte list"

definition tagEnd :: Tag where [simp]: "tagEnd = 0"
definition tagByte :: Tag where [simp]: "tagByte = 1"
definition tagShort :: Tag where [simp]: "tagShort = 2"
definition tagInt :: Tag where [simp]: "tagInt = 3"
definition tagLong :: Tag where [simp]: "tagLong = 4"
definition tagFloat :: Tag where [simp]: "tagFloat = 5"
definition tagDouble :: Tag where [simp]: "tagDouble = 6"
definition tagByteArray :: Tag where [simp]: "tagByteArray = 7"
definition tagString :: Tag where [simp]: "tagString = 8"
definition tagList :: Tag where [simp]: "tagList = 9"
definition tagCompound :: Tag where [simp]: "tagCompound = 10"
definition tagIntArray :: Tag where [simp]: "tagIntArray = 11"
definition tagLongArray :: Tag where [simp]: "tagLongArray = 12"

definition Uncompressed :: Compression where [simp]: "Uncompressed = 0"
definition GZip :: Compression where [simp]: "GZip = 1"
definition ZLib :: Compression where [simp]: "ZLib = 2"

text \<open>The kinds of package reflect that the codec distinguishes.\<close>

datatype Kind =
    KBool | KInt | KInt8 | KInt16 | KInt32 | KInt64
  | KUint | KUint8 | KUint16 | KUint32 | KUint64
  | KFloat32 | KFloat64 | KString
  | KArray | KSlice | KMap | KStruct | KPtr | KInterface

text \<open>
  Go types, as far as the codec looks at them. A struct type is given by the wire names
  of its fields and their types; map keys are strings.
\<close>

datatype gtype =
    TBool | TInt | TInt8 | TInt16 | TInt32 | TInt64
  | TUint | TUint8 | TUint16 | TUint32 | TUint64
  | TFloat32 | TFloat64 | TString
  | TArray nat gtype
  | TSlice gtype
  | TMap gtype
  | TStruct "(gostring \<times> gtype) list"
  | TPtr gtype
  | TInterface

text \<open>
  Go values. Fixed-width integers are words of their width (the constructor carries the
  signedness); the platform-width \<^verbatim>\<open>int\<close> and \<^verbatim>\<open>uint\<close> are never read or written by
  the codec, only their kind is inspected. A float is its IEEE bit pattern:
  encoding/binary moves the bits, and the one conversion of the codec that can change
  them is modelled where it occurs. Arrays, slices, maps, pointers and interfaces carry their
  static element type; a nil map, a nil pointer and a nil interface are \<open>None\<close>. A
  struct is the list of its fields under their wire names. The entries of a map are an
  association list; its order stands for the iteration order of the run.
\<close>

datatype gval =
    VBool bool
  | VInt int
  | VInt8 "8 word"
  | VInt16 "16 word"
  | VInt32 "32 word"
  | VInt64 "64 word"
  | VUint int
  | VUint8 "8 word"
  | VUint16 "16 word"
  | VUint32 "32 word"
  | VUint64 "64 word"
  | VFloat32 "32 word"
  | VFloat64 "64 word"
  | VString gostring
  | VArray gtype "gval list"
  | VSlice gtype "gval list"
  | VMap gtype "(gostring \<times> gval) list option"
  | VStruct "(gostring \<times> gval) list"
  | VPtr gtype "gval option"
  | VIface "gval option"

fun kindOf :: "gval \<Rightarrow> Kind" where
  "kindOf (VBool _) = KBool"
| "kindOf (VInt _) = KInt"
| "kindOf (VInt8 _) = KInt8"
| "kindOf (VInt16 _) = KInt16"
| "kindOf (VInt32 _) = KInt32"
| "kindOf (VInt64 _) = KInt64"
| "kindOf (VUint _) = KUint"
| "kindOf (VUint8 _) = KUint8"
| "kindOf (VUint16 _) = KUint16"
| "kindOf (VUint32 _) = KUint32"
| "kindOf (VUint64 _) = KUint64"
| "kindOf (VFloat32 _) = KFloat32"
| "kindOf (VFloat64 _) = KFloat64"
| "kindOf (VString _) = KString"
| "kindOf (VArray _ _) = KArray"
| "kindOf (VSlice _ _) = KSlice"
| "kindOf (VMap _ _) = KMap"
| "kindOf (VStruct _) = KStruct"
| "kindOf (VPtr _ _) = KPtr"
| "kindOf (VIface _) = KInterface"

fun kindOfType :: "gtype \<Rightarrow> Kind" where
  "kindOfType TBool = KBool"
| "kindOfType TInt = KInt"
| "kindOfType TInt8 = KInt8"
| "kindOfType TInt16 = KInt16"
| "kindOfType TInt32 = KInt32"
| "kindOfType TInt64 = KInt64"
| "kindOfType TUint = KUint"
| "kindOfType TUint8 = KUint8"
| "kindOfType TUint16 = KUint16"
| "kindOfType TUint32 = KUint32"
| "kindOfType TUint64 = KUint64"
| "kindOfType TFloat32 = KFloat32"
| "kindOfType TFloat64 = KFloat64"
| "kindOfType TString = KString"
| "kindOfType (TArray _ _) = KArray"
| "kindOfType (TSlice _) = KSlice"
| "kindOfType (TMap _) = KMap"
| "kindOfType (TStruct _) = KStruct"
| "kindOfType (TPtr _) = KPtr"
| "kindOfType TInterface = KInterface"

text \<open>\<^verbatim>\<open>v.Type()\<close>: the static type of a value.\<close>

fun typeOf :: "gval \<Rightarrow> gtype" where
  "typeOf (VBool _) = TBool"
| "typeOf (VInt _) = TInt"
| "typeOf (VInt8 _) = TInt8"
| "typeOf (VInt16 _) = TInt16"
| "typeOf (VInt32 _) = TInt32"
| "typeOf (VInt64 _) = TInt64"
| "typeOf (VUint _) = TUint"
| "typeOf (VUint8 _) = TUint8"
| "typeOf (VUint16 _) = TUint16"
| "typeOf (VUint32 _) = TUint32"
| "typeOf (VUint64 _) = TUint64"
| "typeOf (VFloat32 _) = TFloat32"
| "typeOf (VFloat64 _) = TFloat64"
| "typeOf (VString _) = TString"
| "typeOf (VArray t xs) = TArray (length xs) t"
| "typeOf (VSlice t _) = TSlice t"
| "typeOf (VMap t _) = TMap t"
| "typeOf (VStruct fs) = TStruct (map (\<lambda>(n, v). (n, typeOf v)) fs)"
| "typeOf (VPtr t _) = TPtr t"
| "typeOf (VIface _) = TInterface"

text \<open>\<^verbatim>\<open>reflect.New(t).Elem()\<close>: the zero value of a type.\<close>

fun zero :: "gtype \<Rightarrow> gval" where
  "zero TBool = VBool False"
| "zero TInt = VInt 0"
| "zero TInt8 = VInt8 0"
| "zero TInt16 = VInt16 0"
| "zero TInt32 = VInt32 0"
| "zero TInt64 = VInt64 0"
| "zero TUint = VUint 0"
| "zero TUint8 = VUint8 0"
| "zero TUint16 = VUint16 0"
| "zero TUint32 = VUint32 0"
| "zero TUint64 = VUint64 0"
| "zero TFloat32 = VFloat32 0"
| "zero TFloat64 = VFloat64 0"
| "zero TString = VString []"
| "zero (TArray n t) = VArray t (replicate n (zero t))"
| "zero (TSlice t) = VSlice t []"
| "zero (TMap t) = VMap t None"
| "zero (TStruct fs) = VStruct (map (\<lambda>(n, t). (n, zero t)) fs)"
| "zero (TPtr t) = VPtr t None"
| "zero TInterface = VIface None"

section \<open>Errors and outcomes\<close>

text \<open>
  Every \<^verbatim>\<open>panic\<close> of the package is a value of \<open>error\<close>; the constructors follow the
  messages of the source. \<open>AtListIndex\<close> and \<open>AtStructField\<close> are the two breadcrumbs
  that the deferred \<^verbatim>\<open>recover\<close> handlers wrap around a panic on its way up.
  \<open>ReflectPanic\<close> stands for a panic raised inside package reflect (a \<^verbatim>\<open>Set\<close> on a value
  that is not addressable, or of a type that is not assignable), \<open>InvalidBinaryType\<close> for
  the error of \<^verbatim>\<open>binary.Write\<close> on a value without a fixed size, \<open>TypeAssertionFailed\<close>
  for a failed \<^verbatim>\<open>v.(string)\<close> or \<^verbatim>\<open>v.([]byte)\<close>.
\<close>

datatype error =
    NilInput
  | NilOutput
  | UnknownCompression Compression
  | DecompressFailed
  | EOF
  | ErrUnexpectedEOF
  | UnhandledTagAlloc Tag
  | IntUintUnsupported
  | TagKindMismatch Tag Kind
  | ByteArrayTooLong "32 word" nat
  | IntArrayTooLong "32 word" nat
  | UnhandledField Tag
  | UnhandledTag Tag
  | UnhandledArrayType gtype
  | UnhandledListElemType gtype
  | UnhandledType "gtype option"
  | ReflectPanic
  | InvalidBinaryType
  | TypeAssertionFailed
  | UnhandledTagValue Tag
  | AtListIndex error nat
  | AtStructField error gostring

text \<open>
  How a call ends: it returns, it panics, or the model's recursion budget is used up
  (the last is not a behaviour of the program).
\<close>

datatype outcome = Done | Panic error | OutOfFuel

fun atListIndex :: "nat \<Rightarrow> outcome \<Rightarrow> outcome" where
  "atListIndex i (Panic e) = Panic (AtListIndex e i)"
| "atListIndex i out = out"

fun atStructField :: "gostring \<Rightarrow> outcome \<Rightarrow> outcome" where
  "atStructField name (Panic e) = Panic (AtStructField e name)"
| "atStructField name out = out"

section \<open>Big-endian primitives\<close>

definition be16 :: "16 word \<Rightarrow> byte list" where
  "be16 w = [ucast (drop_bit 8 w), ucast w]"

definition be32 :: "32 word \<Rightarrow> byte list" where
  "be32 w = [ucast (drop_bit 24 w), ucast (drop_bit 16 w), ucast (drop_bit 8 w), ucast w]"

definition be64 :: "64 word \<Rightarrow> byte list" where
  "be64 w = [ucast (drop_bit 56 w), ucast (drop_bit 48 w), ucast (drop_bit 40 w),
             ucast (drop_bit 32 w), ucast (drop_bit 24 w), ucast (drop_bit 16 w),
             ucast (drop_bit 8 w), ucast w]"

text \<open>The big-endian value of a byte sequence, as \<^verbatim>\<open>binary.BigEndian\<close> reads it.\<close>

definition beword :: "byte list \<Rightarrow> 'a::len word" where
  "beword bs = foldl (\<lambda>acc b. push_bit 8 acc OR ucast b) 0 bs"

section \<open>The decoder\<close>

text \<open>
  The input stream is the list of the bytes not yet consumed, together with the way in
  which its reader hands them out. \<^verbatim>\<open>d.r\<close> is \<^verbatim>\<open>binary.Read\<close>, that is \<^verbatim>\<open>io.ReadFull\<close> of the
  width of the value, which calls \<^verbatim>\<open>Read\<close> until the value is complete: \<^verbatim>\<open>io.EOF\<close> when
  nothing is left, \<^verbatim>\<open>io.ErrUnexpectedEOF\<close> when too little is, in whatever portions the
  reader delivers.
\<close>

definition r :: "nat \<Rightarrow> byte list \<Rightarrow> error + (byte list \<times> byte list)" where
  "r n s = (if n \<le> length s then Inr (take n s, drop n s)
            else if s = [] then Inl EOF else Inl ErrUnexpectedEOF)"

text \<open>
  A single call of \<^verbatim>\<open>Read\<close> is at the discretion of the reader, within the contract of
  \<^verbatim>\<open>io.Reader\<close>. A reader over a sequence of bytes is described by three things: the
  number of bytes that one call delivers, given the length of the buffer and the bytes
  that remain (taken between 1 and what is both asked for and there); whether a call
  with an empty buffer at the end of the stream reports \<^verbatim>\<open>io.EOF\<close> (\<^verbatim>\<open>bytes.Reader\<close> does,
  \<^verbatim>\<open>bytes.Buffer\<close> does not); and whether the call that delivers the last bytes of the
  stream reports \<^verbatim>\<open>io.EOF\<close> along with them (the readers of compress/gzip and
  compress/zlib may). With bytes remaining, a call with an empty buffer does nothing; with
  none remaining, a call with a buffer that is not empty reports \<^verbatim>\<open>io.EOF\<close>.
\<close>

record reader =
  delivers :: "nat \<Rightarrow> byte list \<Rightarrow> nat"
  eofOnEmptyRead :: bool
  eofWithLastBytes :: bool

text \<open>
  \<open>Read R n s\<close>: one call of \<^verbatim>\<open>Read\<close> on a fresh (zeroed) buffer of \<open>n\<close> bytes, which yields
  the buffer and the rest of the stream, or the error. Bytes that the call does not
  deliver leave the tail of the buffer zero.
\<close>

definition Read :: "reader \<Rightarrow> nat \<Rightarrow> byte list \<Rightarrow> error + (byte list \<times> byte list)" where
  "Read R n s =
     (if s = [] then (if n = 0 \<and> \<not> eofOnEmptyRead R then Inr ([], []) else Inl EOF)
      else if n = 0 then Inr ([], s)
      else (let k = max 1 (min (delivers R n s) (min n (length s))) in
            if k = length s \<and> eofWithLastBytes R then Inl EOF
            else Inr (take k s @ replicate (n - k) 0, drop k s)))"

text \<open>The reader that \<^verbatim>\<open>bytes.Buffer\<close> is: every call delivers all that is asked for and there.\<close>

definition bytesBuffer :: reader where
  "bytesBuffer = \<lparr>delivers = (\<lambda>n s. n), eofOnEmptyRead = False, eofWithLastBytes = False\<rparr>"

text \<open>
  \<^verbatim>\<open>readString\<close> reads the 16-bit length with \<^verbatim>\<open>d.r\<close> and then calls \<^verbatim>\<open>d.in.Read\<close> once on a
  buffer of that length; it looks at the error of the call and not at the number of
  bytes delivered.
\<close>

definition readString :: "reader \<Rightarrow> byte list \<Rightarrow> error + (gostring \<times> byte list)" where
  "readString R s =
     (case r 2 s of
        Inl e \<Rightarrow> Inl e
      | Inr (bs, s1) \<Rightarrow> Read R (unat (beword bs :: 16 word)) s1)"

definition readTag :: "reader \<Rightarrow> byte list \<Rightarrow> error + ((gostring \<times> Tag) \<times> byte list)" where
  "readTag R s =
     (case r 1 s of
        Inl e \<Rightarrow> Inl e
      | Inr (bs, s1) \<Rightarrow>
          (let tag = (beword bs :: Tag) in
           if tag = tagEnd then Inr (([], tag), s1)
           else (case readString R s1 of
                   Inl e \<Rightarrow> Inl e
                 | Inr (name, s2) \<Rightarrow> Inr ((name, tag), s2))))"

text \<open>\<^verbatim>\<open>allocate\<close>: the canonical dynamic representation of a tag.\<close>

definition allocate :: "Tag \<Rightarrow> error + gval" where
  "allocate tag =
     (if tag = tagByte then Inr (zero TInt8)
      else if tag = tagShort then Inr (zero TInt16)
      else if tag = tagInt then Inr (zero TInt32)
      else if tag = tagLong then Inr (zero TInt64)
      else if tag = tagFloat then Inr (zero TFloat32)
      else if tag = tagDouble then Inr (zero TFloat64)
      else if tag = tagByteArray then Inr (zero (TSlice TUint8))
      else if tag = tagString then Inr (zero TString)
      else if tag = tagList then Inr (zero (TSlice TInterface))
      else if tag = tagCompound then Inr (zero (TMap TInterface))
      else if tag = tagIntArray then Inr (zero (TSlice TInt32))
      else if tag = tagLongArray then Inr (zero (TSlice TInt64))
      else Inl (UnhandledTagAlloc tag))"


text \<open>
  The setters of package reflect, each reached only under the kind that its \<^verbatim>\<open>switch\<close>
  has selected: \<^verbatim>\<open>SetInt\<close> and \<^verbatim>\<open>SetUint\<close> truncate the 64-bit argument to the width of
  the slot, \<^verbatim>\<open>SetFloat\<close> narrows to the slot's format.

  Floats are bit patterns here. The one call of \<^verbatim>\<open>SetFloat\<close> on a 32-bit slot is
  \<^verbatim>\<open>v.SetFloat(float64(value))\<close> with a 32-bit \<^verbatim>\<open>value\<close>, and the encoder reads such a slot as
  \<^verbatim>\<open>float32(v.Float())\<close>: both widen a 32-bit float to 64 bits and narrow it again.
  Widening is exact and narrowing gives the value back, so the pattern is kept, except
  that the conversion turns a signalling NaN into the quiet NaN of the same sign and
  payload: it sets bit 22 of the pattern.
\<close>

definition float32_of_float64 :: "32 word \<Rightarrow> 32 word" where
  "float32_of_float64 x =
     (if x AND 0x7F800000 = 0x7F800000 \<and> x AND 0x007FFFFF \<noteq> 0 then x OR 0x00400000 else x)"

fun SetBool :: "gval \<Rightarrow> bool \<Rightarrow> gval" where
  "SetBool (VBool _) x = VBool x"
| "SetBool v x = v"

fun SetInt :: "gval \<Rightarrow> 64 word \<Rightarrow> gval" where
  "SetInt (VInt8 _) x = VInt8 (ucast x)"
| "SetInt (VInt16 _) x = VInt16 (ucast x)"
| "SetInt (VInt32 _) x = VInt32 (ucast x)"
| "SetInt (VInt64 _) x = VInt64 x"
| "SetInt v x = v"

fun SetUint :: "gval \<Rightarrow> 64 word \<Rightarrow> gval" where
  "SetUint (VUint8 _) x = VUint8 (ucast x)"
| "SetUint (VUint16 _) x = VUint16 (ucast x)"
| "SetUint (VUint32 _) x = VUint32 (ucast x)"
| "SetUint (VUint64 _) x = VUint64 x"
| "SetUint v x = v"

fun SetFloat32 :: "gval \<Rightarrow> 32 word \<Rightarrow> gval" where
  "SetFloat32 (VFloat32 _) x = VFloat32 (float32_of_float64 x)"
| "SetFloat32 v x = v"

fun SetFloat64 :: "gval \<Rightarrow> 64 word \<Rightarrow> gval" where
  "SetFloat64 (VFloat64 _) x = VFloat64 x"
| "SetFloat64 v x = v"

fun SetString :: "gval \<Rightarrow> gostring \<Rightarrow> gval" where
  "SetString (VString _) x = VString x"
| "SetString v x = v"

text \<open>
  The result of a decoding step: how it ended, the target slot as the step left it (the
  decoder mutates its target in place, so a panic leaves what was stored before it), and
  the rest of the stream.
\<close>

type_synonym dres = "outcome \<times> gval \<times> byte list"

text \<open>
  A store into the slot \<open>v\<close>. The flag says whether the slot is settable: every slot is,
  except the value that \<^verbatim>\<open>v.Elem()\<close> yields for an interface, on which every \<^verbatim>\<open>Set\<close> of
  package reflect panics.
\<close>

definition store :: "bool \<Rightarrow> gval \<Rightarrow> gval \<Rightarrow> byte list \<Rightarrow> dres" where
  "store settable v v' s = (if settable then (Done, v', s) else (Panic ReflectPanic, v, s))"

text \<open>
  \<^verbatim>\<open>v.SetMapIndex(reflect.ValueOf(name), val)\<close>: the value must be assignable to the
  element type of the map; an interface element boxes it.
\<close>

definition SetMapIndex ::
  "gtype \<Rightarrow> (gostring \<times> gval) list \<Rightarrow> gostring \<Rightarrow> gval \<Rightarrow> (gostring \<times> gval) list option" where
  "SetMapIndex t m name val =
     (if t = TInterface then Some (AList.update name (VIface (Some val)) m)
      else if typeOf val = t then Some (AList.update name val m)
      else None)"

text \<open>
  Modelled from the spec: \<^verbatim>\<open>parseStruct\<close>, the Record Field Resolver, is called by the
  decoder and the encoder but is not among the source files. The spec asks of it only a
  deterministic mapping of wire name to field slot for a record value; a struct value
  here is that mapping, and there is none for a value that is not a record.
\<close>

definition parseStruct :: "gval \<Rightarrow> (gostring \<times> gval) list option" where
  "parseStruct v = (case v of VStruct fs \<Rightarrow> Some fs | _ \<Rightarrow> None)"

text \<open>The elements of an array or slice, its element type, and the same value with other elements.\<close>

fun elemsOf :: "gval \<Rightarrow> gval list" where
  "elemsOf (VArray t xs) = xs"
| "elemsOf (VSlice t xs) = xs"
| "elemsOf v = []"

fun withElems :: "gval \<Rightarrow> gval list \<Rightarrow> gval" where
  "withElems (VArray t _) ys = VArray t ys"
| "withElems (VSlice t _) ys = VSlice t ys"
| "withElems v ys = v"

fun elemTypeOf :: "gval \<Rightarrow> gtype" where
  "elemTypeOf (VArray t xs) = t"
| "elemTypeOf (VSlice t xs) = t"
| "elemTypeOf (VMap t m) = t"
| "elemTypeOf (VPtr t p) = t"
| "elemTypeOf v = TInterface"

fun pointee :: "gtype \<Rightarrow> gtype" where
  "pointee (TPtr t) = t"
| "pointee t = t"

subsection \<open>The cases of \<^verbatim>\<open>readValue\<close> that do not recurse\<close>

text \<open>
  Each fixed-width case reads the value first and looks at the kind of the slot after
  that; the String case looks at the kind first.
\<close>

definition readByte :: "bool \<Rightarrow> gval \<Rightarrow> byte list \<Rightarrow> dres" where
  "readByte settable v s =
     (case r 1 s of
        Inl e \<Rightarrow> (Panic e, v, [])
      | Inr (bs, s1) \<Rightarrow>
          (let value = (beword bs :: 8 word) in
           if kindOf v = KBool then store settable v (SetBool v (value \<noteq> 0)) s1
           else if kindOf v = KInt8 then
             store settable v (SetInt v (scast (ucast value :: 8 word))) s1
           else if kindOf v = KUint8 then store settable v (SetUint v (ucast value)) s1
           else (Panic (TagKindMismatch tagByte (kindOf v)), v, s1)))"

definition readShort :: "bool \<Rightarrow> gval \<Rightarrow> byte list \<Rightarrow> dres" where
  "readShort settable v s =
     (case r 2 s of
        Inl e \<Rightarrow> (Panic e, v, [])
      | Inr (bs, s1) \<Rightarrow>
          (let value = (beword bs :: 16 word) in
           if kindOf v = KInt16 then
             store settable v (SetInt v (scast (ucast value :: 16 word))) s1
           else if kindOf v = KUint16 then store settable v (SetUint v (ucast value)) s1
           else (Panic (TagKindMismatch tagShort (kindOf v)), v, s1)))"

text \<open>
  The Int case: \<^verbatim>\<open>v.SetInt(int64(int16(value)))\<close> for an \<^verbatim>\<open>int32\<close> slot,
  \<^verbatim>\<open>v.SetUint(uint64(value))\<close> for a \<^verbatim>\<open>uint32\<close> slot.
\<close>

definition readInt :: "bool \<Rightarrow> gval \<Rightarrow> byte list \<Rightarrow> dres" where
  "readInt settable v s =
     (case r 4 s of
        Inl e \<Rightarrow> (Panic e, v, [])
      | Inr (bs, s1) \<Rightarrow>
          (let value = (beword bs :: 32 word) in
           if kindOf v = KInt32 then
             store settable v (SetInt v (scast (ucast value :: 16 word))) s1
           else if kindOf v = KUint32 then store settable v (SetUint v (ucast value)) s1
           else (Panic (TagKindMismatch tagInt (kindOf v)), v, s1)))"

definition readLong :: "bool \<Rightarrow> gval \<Rightarrow> byte list \<Rightarrow> dres" where
  "readLong settable v s =
     (case r 8 s of
        Inl e \<Rightarrow> (Panic e, v, [])
      | Inr (bs, s1) \<Rightarrow>
          (let value = (beword bs :: 64 word) in
           if kindOf v = KInt64 then store settable v (SetInt v value) s1
           else if kindOf v = KUint64 then store settable v (SetUint v value) s1
           else (Panic (TagKindMismatch tagLong (kindOf v)), v, s1)))"

definition readFloat :: "bool \<Rightarrow> gval \<Rightarrow> byte list \<Rightarrow> dres" where
  "readFloat settable v s =
     (case r 4 s of
        Inl e \<Rightarrow> (Panic e, v, [])
      | Inr (bs, s1) \<Rightarrow>
          (let value = (beword bs :: 32 word) in
           if kindOf v = KFloat32 then store settable v (SetFloat32 v value) s1
           else (Panic (TagKindMismatch tagFloat (kindOf v)), v, s1)))"

definition readDouble :: "bool \<Rightarrow> gval \<Rightarrow> byte list \<Rightarrow> dres" where
  "readDouble settable v s =
     (case r 8 s of
        Inl e \<Rightarrow> (Panic e, v, [])
      | Inr (bs, s1) \<Rightarrow>
          (let value = (beword bs :: 64 word) in
           if kindOf v = KFloat64 then store settable v (SetFloat64 v value) s1
           else (Panic (TagKindMismatch tagDouble (kindOf v)), v, s1)))"

definition readStringValue :: "reader \<Rightarrow> bool \<Rightarrow> gval \<Rightarrow> byte list \<Rightarrow> dres" where
  "readStringValue R settable v s =
     (if kindOf v = KString then
        (case readString R s of
           Inl e \<Rightarrow> (Panic e, v, [])
         | Inr (str, s1) \<Rightarrow> store settable v (SetString v str) s1)
      else (Panic (TagKindMismatch tagString (kindOf v)), v, s))"

text \<open>
  The head of the ByteArray, IntArray and LongArray cases, after the count has been
  read: the kind of the slot, the comparison \<^verbatim>\<open>uint32(v.Len()) < length\<close>, the panic for
  an array and the \<^verbatim>\<open>v.Set(reflect.MakeSlice(...))\<close> for a slice. It yields the slot
  whose first \<^verbatim>\<open>length\<close> elements the loop then fills. The source prints the Int-array
  message for the LongArray case as well. \<^verbatim>\<open>int\<close> is taken to be 64 bits wide, so
  \<^verbatim>\<open>int(length)\<close> is the value of the 32-bit count.
\<close>

definition arrayTarget :: "bool \<Rightarrow> Tag \<Rightarrow> 32 word \<Rightarrow> gval \<Rightarrow> error + gval" where
  "arrayTarget settable tag count v =
     (if kindOf v = KArray then
        (if (of_nat (length (elemsOf v)) :: 32 word) < count then
           Inl ((if tag = tagByteArray then ByteArrayTooLong else IntArrayTooLong)
                  count (length (elemsOf v)))
         else Inr v)
      else if kindOf v = KSlice then
        (if (of_nat (length (elemsOf v)) :: 32 word) < count then
           (if settable then
              Inr (withElems v (replicate (unat count) (zero (elemTypeOf v))))
            else Inl ReflectPanic)
         else Inr v)
      else Inl (TagKindMismatch tag (kindOf v)))"

text \<open>
  The List case, per element: the slot that is decoded into (\<^verbatim>\<open>reflect.New(kind.Elem())\<close>
  behind a pointer element type, \<^verbatim>\<open>d.allocate(inner)\<close> for an interface element type,
  \<^verbatim>\<open>reflect.New(kind).Elem()\<close> otherwise) and the value that \<^verbatim>\<open>reflect.Append\<close> then
  appends (the pointer, the boxed value, the value).
\<close>

definition listSlot :: "gtype \<Rightarrow> Tag \<Rightarrow> error + gval" where
  "listSlot t inner =
     (if kindOfType t = KPtr then Inr (zero (pointee t))
      else if kindOfType t = KInterface then allocate inner
      else Inr (zero t))"

definition listElem :: "gtype \<Rightarrow> gval \<Rightarrow> gval" where
  "listElem t x =
     (if kindOfType t = KPtr then VPtr (pointee t) (Some x)
      else if kindOfType t = KInterface then VIface (Some x)
      else x)"

text \<open>
  The head of the Compound case for a map: \<^verbatim>\<open>v.Set(reflect.ValueOf(make(map[string]interface{})))\<close>
  when the map is nil, which package reflect refuses for any other map type.
\<close>

definition mapTarget :: "bool \<Rightarrow> gval \<Rightarrow> error + (gostring \<times> gval) list" where
  "mapTarget settable v =
     (case v of
        VMap t (Some es) \<Rightarrow> Inr es
      | VMap t None \<Rightarrow> if settable \<and> t = TInterface then Inr [] else Inl ReflectPanic
      | _ \<Rightarrow> Inl ReflectPanic)"

subsection \<open>\<^verbatim>\<open>readValue\<close>\<close>

text \<open>
  The first argument is the reader of the stream; the second bounds the nesting of calls and the number of entries read by the
  two unbounded \<^verbatim>\<open>for\<close> loops of the Compound case. \<open>readValue\<close> is the kind guard at
  the head of the function, \<open>readPayload\<close> the \<^verbatim>\<open>switch tag\<close> on the slot that the
  guard leaves in \<^verbatim>\<open>v\<close> (with the flag that tells whether that slot is settable);
  \<open>readIndexed\<close> is the loop over \<^verbatim>\<open>v.Index(i)\<close> of the three array cases,
  \<open>readListElems\<close> the loop of the List case (with the number of elements still to read,
  the index \<^verbatim>\<open>i\<close> and the slice built so far), \<open>readStructFields\<close> and
  \<open>readMapEntries\<close> the loops of the Compound case (with the variable \<^verbatim>\<open>name\<close> that the
  deferred handler prints). In the List case both branches on \<^verbatim>\<open>v.Cap()\<close> leave a slice
  of length 0 in the slot.
\<close>

function (sequential)
      readValue :: "reader \<Rightarrow> nat \<Rightarrow> Tag \<Rightarrow> gval \<Rightarrow> byte list \<Rightarrow> dres"
  and readPayload :: "reader \<Rightarrow> nat \<Rightarrow> bool \<Rightarrow> Tag \<Rightarrow> gval \<Rightarrow> byte list \<Rightarrow> dres"
  and readIndexed ::
    "reader \<Rightarrow> nat \<Rightarrow> Tag \<Rightarrow> gval list \<Rightarrow> byte list \<Rightarrow> outcome \<times> gval list \<times> byte list"
  and readListElems ::
    "reader \<Rightarrow> nat \<Rightarrow> Tag \<Rightarrow> gtype \<Rightarrow> nat \<Rightarrow> nat \<Rightarrow> gval list \<Rightarrow> byte list
       \<Rightarrow> outcome \<times> gval list \<times> byte list"
  and readStructFields ::
    "reader \<Rightarrow> nat \<Rightarrow> (gostring \<times> gval) list \<Rightarrow> gostring \<Rightarrow> byte list \<Rightarrow> dres"
  and readMapEntries ::
    "reader \<Rightarrow> nat \<Rightarrow> gtype \<Rightarrow> (gostring \<times> gval) list \<Rightarrow> gostring \<Rightarrow> byte list \<Rightarrow> dres"
where
  "readValue R 0 tag v s = (OutOfFuel, v, s)"
| "readValue R (Suc f) tag v s =
     (if kindOf v = KInt \<or> kindOf v = KUint then (Panic IntUintUnsupported, v, s)
      else if kindOf v = KInterface then
        (case allocate tag of
           Inl e \<Rightarrow> (Panic e, v, s)
         | Inr a \<Rightarrow>
             (case readPayload R f False tag a s of
                (out, a', s') \<Rightarrow> (out, VIface (Some a'), s')))
      else if kindOf v = KPtr then
        (case readPayload R f True tag (zero (elemTypeOf v)) s of
           (out, p, s') \<Rightarrow> (out, VPtr (elemTypeOf v) (Some p), s'))
      else readPayload R f True tag v s)"
| "readPayload R f settable tag v s =
     (if tag = tagByte then readByte settable v s
      else if tag = tagShort then readShort settable v s
      else if tag = tagInt then readInt settable v s
      else if tag = tagLong then readLong settable v s
      else if tag = tagFloat then readFloat settable v s
      else if tag = tagDouble then readDouble settable v s
      else if tag = tagByteArray then
        (case r 4 s of
           Inl e \<Rightarrow> (Panic e, v, [])
         | Inr (bs, s1) \<Rightarrow>
             (case arrayTarget settable tag (beword bs) v of
                Inl e \<Rightarrow> (Panic e, v, s1)
              | Inr v1 \<Rightarrow>
                  (case readIndexed R f tagByte
                          (take (unat (beword bs :: 32 word)) (elemsOf v1)) s1 of
                     (out, ys, s2) \<Rightarrow>
                       (out, withElems v1
                          (ys @ drop (unat (beword bs :: 32 word)) (elemsOf v1)), s2))))
      else if tag = tagString then readStringValue R settable v s
      else if tag = tagList then
        (case r 1 s of
           Inl e \<Rightarrow> (Panic e, v, [])
         | Inr (bs, s1) \<Rightarrow>
             (case r 4 s1 of
                Inl e \<Rightarrow> (Panic e, v, [])
              | Inr (bs', s2) \<Rightarrow>
                  if kindOf v = KSlice then
                    (if settable then
                       (case readListElems R f (beword bs) (elemTypeOf v)
                               (unat (beword bs' :: 32 word)) 0 [] s2 of
                          (out, ys, s3) \<Rightarrow> (out, withElems v ys, s3))
                     else (Panic ReflectPanic, v, s2))
                  else (Panic (TagKindMismatch tag (kindOf v)), v, s2)))
      else if tag = tagCompound then
        (if kindOf v = KStruct then
           (case parseStruct v of
              None \<Rightarrow> (Panic ReflectPanic, v, s)
            | Some fs \<Rightarrow> readStructFields R f fs [] s)
         else if kindOf v = KMap then
           (case mapTarget settable v of
              Inl e \<Rightarrow> (Panic e, v, s)
            | Inr es \<Rightarrow> readMapEntries R f (elemTypeOf v) es [] s)
         else (Panic (TagKindMismatch tag (kindOf v)), v, s))
      else if tag = tagIntArray then
        (case r 4 s of
           Inl e \<Rightarrow> (Panic e, v, [])
         | Inr (bs, s1) \<Rightarrow>
             (case arrayTarget settable tag (beword bs) v of
                Inl e \<Rightarrow> (Panic e, v, s1)
              | Inr v1 \<Rightarrow>
                  (case readIndexed R f tagInt
                          (take (unat (beword bs :: 32 word)) (elemsOf v1)) s1 of
                     (out, ys, s2) \<Rightarrow>
                       (out, withElems v1
                          (ys @ drop (unat (beword bs :: 32 word)) (elemsOf v1)), s2))))
      else if tag = tagLongArray then
        (case r 4 s of
           Inl e \<Rightarrow> (Panic e, v, [])
         | Inr (bs, s1) \<Rightarrow>
             (case arrayTarget settable tag (beword bs) v of
                Inl e \<Rightarrow> (Panic e, v, s1)
              | Inr v1 \<Rightarrow>
                  (case readIndexed R f tagLong
                          (take (unat (beword bs :: 32 word)) (elemsOf v1)) s1 of
                     (out, ys, s2) \<Rightarrow>
                       (out, withElems v1
                          (ys @ drop (unat (beword bs :: 32 word)) (elemsOf v1)), s2))))
      else (Panic (UnhandledTag tag), v, s))"
| "readIndexed R f tag [] s = (Done, [], s)"
| "readIndexed R f tag (x # xs) s =
     (case readValue R f tag x s of
        (out, x', s1) \<Rightarrow>
          if out = Done then
            (case readIndexed R f tag xs s1 of (out', xs', s2) \<Rightarrow> (out', x' # xs', s2))
          else (out, x' # xs, s1))"
| "readListElems R f inner t 0 i acc s = (Done, acc, s)"
| "readListElems R f inner t (Suc k) i acc s =
     (case listSlot t inner of
        Inl e \<Rightarrow> (Panic (AtListIndex e i), acc, s)
      | Inr slot \<Rightarrow>
          (case readValue R f inner slot s of
             (out, x, s1) \<Rightarrow>
               if out = Done then readListElems R f inner t k (Suc i) (acc @ [listElem t x]) s1
               else (atListIndex i out, acc, s1)))"
| "readStructFields R 0 fs name s = (OutOfFuel, VStruct fs, s)"
| "readStructFields R (Suc f) fs name s =
     (case readTag R s of
        Inl e \<Rightarrow> (Panic (AtStructField e name), VStruct fs, [])
      | Inr ((name', tag), s1) \<Rightarrow>
          if tag = tagEnd then (Done, VStruct fs, s1)
          else
            (case map_of fs name' of
               Some field \<Rightarrow>
                 (case readValue R f tag field s1 of
                    (out, field', s2) \<Rightarrow>
                      if out = Done then
                        readStructFields R f (AList.update name' field' fs) name' s2
                      else (atStructField name' out,
                            VStruct (AList.update name' field' fs), s2))
             | None \<Rightarrow> (Panic (AtStructField (UnhandledField tag) name'), VStruct fs, s1)))"
| "readMapEntries R 0 t m name s = (OutOfFuel, VMap t (Some m), s)"
| "readMapEntries R (Suc f) t m name s =
     (case readTag R s of
        Inl e \<Rightarrow> (Panic (AtStructField e name), VMap t (Some m), [])
      | Inr ((name', tag), s1) \<Rightarrow>
          if tag = tagEnd then (Done, VMap t (Some m), s1)
          else
            (case allocate tag of
               Inl e \<Rightarrow> (Panic (AtStructField e name'), VMap t (Some m), s1)
             | Inr val \<Rightarrow>
                 (case readValue R f tag val s1 of
                    (out, val', s2) \<Rightarrow>
                      if out = Done then
                        (case SetMapIndex t m name' val' of
                           None \<Rightarrow>
                             (Panic (AtStructField ReflectPanic name'), VMap t (Some m), s2)
                         | Some m' \<Rightarrow> readMapEntries R f t m' name' s2)
                      else (atStructField name' out, VMap t (Some m), s2))))"
  by pat_completeness auto

termination
  by (relation "measures
       [(\<lambda>x. case x of
             Inl (Inl (R, f, _)) \<Rightarrow> f
           | Inl (Inr (Inl (R, f, _))) \<Rightarrow> f
           | Inl (Inr (Inr (R, f, _))) \<Rightarrow> f
           | Inr (Inl (R, f, _)) \<Rightarrow> f
           | Inr (Inr (Inl (R, f, _))) \<Rightarrow> f
           | Inr (Inr (Inr (R, f, _))) \<Rightarrow> f),
        (\<lambda>x. case x of
             Inl (Inl _) \<Rightarrow> 0
           | Inl (Inr (Inl _)) \<Rightarrow> 2
           | _ \<Rightarrow> Suc 0),
        (\<lambda>x. case x of
             Inl (Inr (Inr (R, f, tag, xs, s))) \<Rightarrow> length xs
           | Inr (Inl (R, f, inner, t, k, _)) \<Rightarrow> k
           | _ \<Rightarrow> 0)]")
     auto

text \<open>The two large equations are unfolded only where a proof asks for them.\<close>

declare readValue.simps [simp del] readPayload.simps [simp del]

subsection \<open>\<^verbatim>\<open>Unmarshal\<close>\<close>

text \<open>
  The compressed-stream wrappers of compress/gzip and compress/zlib are external to the
  package and are parameters here: the reader that \<^verbatim>\<open>NewReader\<close> returns for the bytes of a
  stream, with the bytes it holds (\<open>None\<close> when \<^verbatim>\<open>NewReader\<close> reports an error), and what a
  writer has emitted for the bytes written to it once it is closed.
\<close>

record wrappers =
  gzipReader :: "byte list \<Rightarrow> (reader \<times> byte list) option"
  zlibReader :: "byte list \<Rightarrow> (reader \<times> byte list) option"
  gzipWriter :: "byte list \<Rightarrow> byte list"
  zlibWriter :: "byte list \<Rightarrow> byte list"

text \<open>
  \<^verbatim>\<open>decodeState.init\<close>; a nil stream is \<open>None\<close>, any other is its reader and its bytes. The
  result is the stream that the decoder reads.
\<close>

definition init ::
  "wrappers \<Rightarrow> Compression \<Rightarrow> (reader \<times> byte list) option \<Rightarrow> error + (reader \<times> byte list)" where
  "init W compression inp =
     (case inp of
        None \<Rightarrow> Inl NilInput
      | Some (R, s) \<Rightarrow>
          if compression = Uncompressed then Inr (R, s)
          else if compression = GZip then
            (case gzipReader W s of None \<Rightarrow> Inl DecompressFailed | Some d \<Rightarrow> Inr d)
          else if compression = ZLib then
            (case zlibReader W s of None \<Rightarrow> Inl DecompressFailed | Some d \<Rightarrow> Inr d)
          else Inl (UnknownCompression compression))"

text \<open>\<^verbatim>\<open>decodeState.unmarshal\<close>: the root tag, its name dropped, then the value.\<close>

definition unmarshal :: "reader \<Rightarrow> nat \<Rightarrow> byte list \<Rightarrow> gval \<Rightarrow> dres" where
  "unmarshal R fuel d v =
     (case readTag R d of
        Inl e \<Rightarrow> (Panic e, v, [])
      | Inr ((name, tag), s1) \<Rightarrow> readValue R fuel tag v s1)"

text \<open>
  \<^verbatim>\<open>Unmarshal\<close>: the argument \<open>v\<close> is the variable that the pointer passed by the caller
  points to; the result is the returned \<^verbatim>\<open>err\<close> (the deferred handler turns every panic
  into it) and that variable after the call.
\<close>

definition Unmarshal ::
  "nat \<Rightarrow> wrappers \<Rightarrow> Compression \<Rightarrow> (reader \<times> byte list) option \<Rightarrow> gval \<Rightarrow> outcome \<times> gval"
  where
  "Unmarshal fuel W compression inp v =
     (case init W compression inp of
        Inl e \<Rightarrow> (Panic e, v)
      | Inr (R, d) \<Rightarrow> (case unmarshal R fuel d v of (out, v', rest) \<Rightarrow> (out, v')))"

section \<open>The encoder\<close>

text \<open>
  The output stream is the list of the bytes written so far, an in-memory buffer whose
  \<^verbatim>\<open>Write\<close> does not fail. The result of an encoding step is how it ended and the
  stream as the step left it (there is no rollback).
\<close>

type_synonym wres = "outcome \<times> byte list"

text \<open>
  \<^verbatim>\<open>w\<close> is \<^verbatim>\<open>binary.Write\<close> in big-endian order, which goes by the type of the value it is
  given.
\<close>

fun binaryBytes :: "gval \<Rightarrow> byte list option" where
  "binaryBytes (VBool b) = Some [if b then 1 else 0]"
| "binaryBytes (VInt8 x) = Some [x]"
| "binaryBytes (VUint8 x) = Some [x]"
| "binaryBytes (VInt16 x) = Some (be16 x)"
| "binaryBytes (VUint16 x) = Some (be16 x)"
| "binaryBytes (VInt32 x) = Some (be32 x)"
| "binaryBytes (VUint32 x) = Some (be32 x)"
| "binaryBytes (VInt64 x) = Some (be64 x)"
| "binaryBytes (VUint64 x) = Some (be64 x)"
| "binaryBytes (VFloat32 x) = Some (be32 x)"
| "binaryBytes (VFloat64 x) = Some (be64 x)"
| "binaryBytes v = None"

definition w :: "byte list \<Rightarrow> gval \<Rightarrow> wres" where
  "w out v = (case binaryBytes v of
                None \<Rightarrow> (Panic InvalidBinaryType, out)
              | Some bs \<Rightarrow> (Done, out @ bs))"

text \<open>The bytes of a \<^verbatim>\<open>[]byte\<close>.\<close>

fun byteOf :: "gval \<Rightarrow> byte" where
  "byteOf (VUint8 x) = x"
| "byteOf (VInt8 x) = x"
| "byteOf v = 0"

text \<open>
  \<^verbatim>\<open>writeValue\<close>. The length prefixes are the conversions \<^verbatim>\<open>uint16(len(...))\<close> and
  \<^verbatim>\<open>uint32(len(...))\<close>, which keep the low bits of the length.
\<close>

definition writeValue :: "byte list \<Rightarrow> Tag \<Rightarrow> gval \<Rightarrow> wres" where
  "writeValue out tag v =
     (if tag = tagByte \<or> tag = tagShort \<or> tag = tagInt \<or> tag = tagLong
         \<or> tag = tagFloat \<or> tag = tagDouble then w out v
      else if tag = tagString then
        (case v of
           VString str \<Rightarrow> (Done, out @ be16 (of_nat (length str)) @ str)
         | _ \<Rightarrow> (Panic TypeAssertionFailed, out))
      else if tag = tagByteArray then
        (case v of
           VSlice t xs \<Rightarrow>
             if t = TUint8 then (Done, out @ be32 (of_nat (length xs)) @ map byteOf xs)
             else (Panic TypeAssertionFailed, out)
         | _ \<Rightarrow> (Panic TypeAssertionFailed, out))
      else (Panic (UnhandledTagValue tag), out))"

text \<open>
  The two statements that open every case of \<^verbatim>\<open>writeTag\<close>: \<^verbatim>\<open>w(out, tag)\<close> and
  \<^verbatim>\<open>writeValue(out, tagString, name)\<close>; neither can panic on this stream.
\<close>

definition writeHeader :: "byte list \<Rightarrow> Tag \<Rightarrow> gostring \<Rightarrow> byte list" where
  "writeHeader out tag name = snd (writeValue (out @ [tag]) tagString (VString name))"

text \<open>
  The loops \<^verbatim>\<open>for i := 0; i < v.Len(); i++ { writeValue(out, tag, v.Index(i).Interface()) }\<close>
  of the IntArray and LongArray cases, and of a list of such arrays.
\<close>

fun writeValues :: "byte list \<Rightarrow> Tag \<Rightarrow> gval list \<Rightarrow> wres" where
  "writeValues out tag [] = (Done, out)"
| "writeValues out tag (x # xs) =
     (case writeValue out tag x of
        (res, out1) \<Rightarrow> if res = Done then writeValues out1 tag xs else (res, out1))"

text \<open>
  \<^verbatim>\<open>reflect.Indirect\<close> on a value and its addressability: the target of a pointer is
  addressable; the target of a nil pointer is the invalid \<^verbatim>\<open>Value\<close>, \<open>None\<close>.
\<close>

fun indirect :: "bool \<Rightarrow> gval \<Rightarrow> bool \<times> gval option" where
  "indirect addr (VPtr t p) = (True, p)"
| "indirect addr v = (addr, Some v)"

text \<open>
  The element tag that \<^verbatim>\<open>writeList\<close> derives from the element type of the slice (the
  first \<^verbatim>\<open>switch\<close> of the function).
\<close>

definition listTag :: "gtype \<Rightarrow> error + Tag" where
  "listTag t =
     (let k = kindOfType t in
      if k = KBool \<or> k = KInt8 \<or> k = KUint8 then Inr tagByte
      else if k = KInt16 \<or> k = KUint16 then Inr tagShort
      else if k = KInt32 \<or> k = KUint32 then Inr tagInt
      else if k = KInt64 \<or> k = KUint64 then Inr tagLong
      else if k = KFloat32 then Inr tagFloat
      else if k = KFloat64 then Inr tagDouble
      else if k = KString then Inr tagString
      else if k = KArray then
        (case t of
           TArray n t' \<Rightarrow>
             (let k' = kindOfType t' in
              if k' = KUint8 then Inr tagByteArray
              else if k' = KInt32 \<or> k' = KUint32 then Inr tagIntArray
              else if k' = KInt64 \<or> k' = KUint64 then Inr tagLongArray
              else Inl (UnhandledArrayType t'))
         | _ \<Rightarrow> Inl (UnhandledArrayType t))
      else if k = KSlice then Inr tagList
      else if k = KMap \<or> k = KStruct then Inr tagCompound
      else if k = KPtr then Inr tagCompound
      else Inl (UnhandledListElemType t))"

text \<open>What the termination of the encoder rests on: a value reached through a pointer is no larger.\<close>

lemma size_indirect: "indirect addr v = (addr', Some v') \<Longrightarrow> size v' \<le> size v"
  by (cases v) auto

lemma size_indirect': "(addr', Some v') = indirect addr v \<Longrightarrow> size v' \<le> size v"
  by (cases v) auto

lemma size_snd_indirect:
  "(case snd (indirect addr v) of None \<Rightarrow> 0 | Some v' \<Rightarrow> size v') \<le> size v"
  by (cases v) (auto split: option.splits)

text \<open>
  \<^verbatim>\<open>writeTag\<close> and its helpers. \<open>writeTag\<close> is \<^verbatim>\<open>reflect.Indirect\<close> and the deferred
  handler that adds the field name to a panic; \<open>writeKind\<close> is the loop that unwraps
  interfaces and the \<^verbatim>\<open>switch v.Kind()\<close>. The flag says whether the value is addressable,
  which \<^verbatim>\<open>v.Slice\<close> asks of an array. \<open>writeListElems\<close> is the loop of \<^verbatim>\<open>writeList\<close> with
  its index, \<open>writeMapEntries\<close> and \<open>writeFields\<close> are the loops of \<^verbatim>\<open>writeMap\<close> and
  \<^verbatim>\<open>writeCompound\<close>; the order of the list stands for the order in which the run
  iterates over the Go map. The argument of \<open>writeCompound\<close> is \<open>None\<close> for the invalid
  \<^verbatim>\<open>Value\<close>.
\<close>

function (sequential) writeTag :: "byte list \<Rightarrow> gostring \<Rightarrow> bool \<Rightarrow> gval \<Rightarrow> wres"
  and writeKind :: "byte list \<Rightarrow> gostring \<Rightarrow> bool \<Rightarrow> gval \<Rightarrow> wres"
  and writeList :: "byte list \<Rightarrow> gtype \<Rightarrow> gval list \<Rightarrow> wres"
  and writeListElems :: "byte list \<Rightarrow> Tag \<Rightarrow> gtype \<Rightarrow> nat \<Rightarrow> gval list \<Rightarrow> wres"
  and writeMap :: "byte list \<Rightarrow> gval \<Rightarrow> wres"
  and writeMapEntries :: "byte list \<Rightarrow> (gostring \<times> gval) list \<Rightarrow> wres"
  and writeCompound :: "byte list \<Rightarrow> bool \<Rightarrow> gval option \<Rightarrow> wres"
  and writeFields :: "byte list \<Rightarrow> bool \<Rightarrow> (gostring \<times> gval) list \<Rightarrow> wres"
where
  "writeTag out name addr v =
     (case indirect addr v of
        (addr', None) \<Rightarrow> (Panic (AtStructField ReflectPanic name), out)
      | (addr', Some v') \<Rightarrow>
          (case writeKind out name addr' v' of
             (res, out1) \<Rightarrow> (atStructField name res, out1)))"
| "writeKind out name addr (VIface None) = (Panic ReflectPanic, out)"
| "writeKind out name addr (VIface (Some x)) = writeKind out name False x"
| "writeKind out name addr (VBool b) =
     writeValue (writeHeader out tagByte name) tagByte (VUint8 (if b then 1 else 0))"
| "writeKind out name addr (VInt8 x) =
     writeValue (writeHeader out tagByte name) tagByte (VInt8 x)"
| "writeKind out name addr (VUint8 x) =
     writeValue (writeHeader out tagByte name) tagByte (VUint8 x)"
| "writeKind out name addr (VInt16 x) =
     writeValue (writeHeader out tagShort name) tagShort (VInt16 x)"
| "writeKind out name addr (VUint16 x) =
     writeValue (writeHeader out tagShort name) tagShort (VUint16 x)"
| "writeKind out name addr (VInt32 x) =
     writeValue (writeHeader out tagInt name) tagInt (VInt32 x)"
| "writeKind out name addr (VUint32 x) =
     writeValue (writeHeader out tagInt name) tagInt (VUint32 x)"
| "writeKind out name addr (VInt64 x) =
     writeValue (writeHeader out tagLong name) tagLong (VInt64 x)"
| "writeKind out name addr (VUint64 x) =
     writeValue (writeHeader out tagLong name) tagLong (VUint64 x)"
| "writeKind out name addr (VFloat32 x) =
     writeValue (writeHeader out tagFloat name) tagFloat (VFloat32 (float32_of_float64 x))"
| "writeKind out name addr (VFloat64 x) =
     writeValue (writeHeader out tagDouble name) tagDouble (VFloat64 x)"
| "writeKind out name addr (VString x) =
     writeValue (writeHeader out tagString name) tagString (VString x)"
| "writeKind out name addr (VArray t xs) =
     (if kindOfType t = KUint8 then
        (if addr then
           writeValue (writeHeader out tagByteArray name) tagByteArray (VSlice t xs)
         else (Panic ReflectPanic, writeHeader out tagByteArray name))
      else if kindOfType t = KInt32 \<or> kindOfType t = KUint32 then
        writeValues (writeHeader out tagIntArray name) tagInt xs
      else if kindOfType t = KInt64 \<or> kindOfType t = KUint64 then
        writeValues (writeHeader out tagLongArray name) tagLong xs
      else (Panic (UnhandledArrayType t), out))"
| "writeKind out name addr (VSlice t xs) = writeList (writeHeader out tagList name) t xs"
| "writeKind out name addr (VMap t m) = writeMap (writeHeader out tagCompound name) (VMap t m)"
| "writeKind out name addr (VStruct fs) =
     writeCompound (writeHeader out tagCompound name) addr (Some (VStruct fs))"
| "writeKind out name addr v = (Panic (UnhandledType (Some (typeOf v))), out)"
| "writeList out t xs =
     (case listTag t of
        Inl e \<Rightarrow> (Panic e, out)
      | Inr tag \<Rightarrow>
          writeListElems (out @ [tag] @ be32 (of_nat (length xs))) tag t 0 xs)"
| "writeListElems out tag t i [] = (Done, out)"
| "writeListElems out tag t i (x # xs) =
     (case
        (if kindOfType t = KBool then
           (case x of
              VBool b \<Rightarrow> writeValue out tagByte (VUint8 (if b then 1 else 0))
            | _ \<Rightarrow> (Panic ReflectPanic, out))
         else if tag = tagCompound then
           (if kindOfType t = KMap then writeMap out x
            else writeCompound out True (snd (indirect True x)))
         else if tag = tagList then
           (case x of
              VSlice t' ys \<Rightarrow> writeList out t' ys
            | _ \<Rightarrow> (Panic ReflectPanic, out))
         else if tag = tagByteArray then writeValue out tag (VSlice TUint8 (elemsOf x))
         else if tag = tagIntArray then writeValues out tagInt (elemsOf x)
         else if tag = tagLongArray then writeValues out tagLong (elemsOf x)
         else writeValue out tag x)
      of (res, out1) \<Rightarrow>
        if res = Done then writeListElems out1 tag t (Suc i) xs
        else (atListIndex i res, out1))"
| "writeMap out v =
     (case v of
        VMap t (Some es) \<Rightarrow> writeMapEntries out es
      | VMap t None \<Rightarrow> (Done, out @ [tagEnd])
      | _ \<Rightarrow> (Panic ReflectPanic, out))"
| "writeMapEntries out [] = (Done, out @ [tagEnd])"
| "writeMapEntries out ((name, x) # es) =
     (case indirect False x of
        (addr, None) \<Rightarrow> (Panic (AtStructField ReflectPanic name), out)
      | (addr, Some x') \<Rightarrow>
          (case writeTag out name addr x' of
             (res, out1) \<Rightarrow> if res = Done then writeMapEntries out1 es else (res, out1)))"
| "writeCompound out addr None = (Panic ReflectPanic, out)"
| "writeCompound out addr (Some v) =
     (case indirect addr v of
        (addr', None) \<Rightarrow> (Panic ReflectPanic, out)
      | (addr', Some v') \<Rightarrow>
          (case parseStruct v' of
             Some fs \<Rightarrow> writeFields out addr' fs
           | None \<Rightarrow> (Panic ReflectPanic, out)))"
| "writeFields out addr [] = (Done, out @ [tagEnd])"
| "writeFields out addr ((name, x) # fs) =
     (case writeTag out name addr x of
        (res, out1) \<Rightarrow> if res = Done then writeFields out1 addr fs else (res, out1))"
  by pat_completeness auto

termination
  apply (relation "measures
       [(\<lambda>x. case x of
             Inl (Inl (Inl (out, name, addr, v))) \<Rightarrow> size v
           | Inl (Inl (Inr (out, name, addr, v))) \<Rightarrow> size v
           | Inl (Inr (Inl (out, t, xs))) \<Rightarrow> size_list size xs
           | Inl (Inr (Inr (out, tag, t, i, xs))) \<Rightarrow> size_list size xs
           | Inr (Inl (Inl (out, v))) \<Rightarrow> size v
           | Inr (Inl (Inr (out, es))) \<Rightarrow> size_list (size_prod (\<lambda>_. 0) size) es
           | Inr (Inr (Inl (out, addr, vo))) \<Rightarrow> (case vo of None \<Rightarrow> 0 | Some v \<Rightarrow> size v)
           | Inr (Inr (Inr (out, addr, fs))) \<Rightarrow> size_list (size_prod (\<lambda>_. 0) size) fs),
        (\<lambda>x. case x of
             Inl (Inl (Inl _)) \<Rightarrow> 3
           | Inl (Inl (Inr _)) \<Rightarrow> 2
           | Inl (Inr (Inl _)) \<Rightarrow> Suc 0
           | Inr (Inl (Inl _)) \<Rightarrow> Suc 0
           | Inr (Inr (Inl _)) \<Rightarrow> Suc 0
           | _ \<Rightarrow> 0)]")
                apply (auto dest!: size_indirect' simp: parseStruct_def split: gval.splits)
  subgoal for t x xs
    using size_snd_indirect [of True x] by simp
  done


subsection \<open>\<^verbatim>\<open>Marshal\<close>\<close>

definition writeRootTag :: "byte list \<Rightarrow> gval \<Rightarrow> wres" where
  "writeRootTag out v = writeTag out [] False v"

text \<open>
  \<^verbatim>\<open>Marshal\<close>: a nil stream is \<open>None\<close>; the result is the returned \<^verbatim>\<open>err\<close> (the deferred
  handler turns every panic into it) and the stream after the call. The value given to
  \<^verbatim>\<open>reflect.ValueOf\<close> is not addressable. Under GZip and ZLib the encoder writes to the
  wrapper, whose deferred \<^verbatim>\<open>Close\<close> runs on a panic as well.
\<close>

definition Marshal ::
  "wrappers \<Rightarrow> Compression \<Rightarrow> byte list option \<Rightarrow> gval \<Rightarrow> outcome \<times> byte list option" where
  "Marshal W compression out v =
     (case out of
        None \<Rightarrow> (Panic NilOutput, None)
      | Some buf \<Rightarrow>
          if compression = Uncompressed then
            (case writeRootTag buf v of (res, buf1) \<Rightarrow> (res, Some buf1))
          else if compression = GZip then
            (case writeRootTag [] v of (res, bs) \<Rightarrow> (res, Some (buf @ gzipWriter W bs)))
          else if compression = ZLib then
            (case writeRootTag [] v of (res, bs) \<Rightarrow> (res, Some (buf @ zlibWriter W bs)))
          else (Panic (UnknownCompression compression), Some buf))"

section \<open>Properties\<close>

subsection \<open>Auxiliary facts\<close>

lemma length_be16 [simp]: "length (be16 x) = 2"
  by (simp add: be16_def)

lemma length_be32 [simp]: "length (be32 x) = 4"
  by (simp add: be32_def)

text \<open>Reading a big-endian value back gives the value that was written.\<close>

lemma beword_be16 [simp]: "beword (be16 x) = x"
  unfolding beword_def be16_def
  apply (rule bit_word_eqI)
  subgoal for n
    by (cases "n < 8") (auto simp: bit_simps not_less)
  done

lemma beword_be32 [simp]: "beword (be32 x) = x"
  unfolding beword_def be32_def
  apply (rule bit_word_eqI)
  subgoal for n
    by (cases "n < 8"; cases "n < 16"; cases "n < 24") (auto simp: bit_simps not_less)
  done

lemma r_append [simp]: "r (length bs) (bs @ s) = Inr (bs, s)"
  by (simp add: r_def)

lemma r_be32 [simp]: "r 4 (be32 x @ s) = Inr (be32 x, s)"
  using r_append [of "be32 x" s] by simp

lemma r_Inl: "r n s = Inl e \<Longrightarrow> e = EOF \<or> e = ErrUnexpectedEOF"
  by (auto simp: r_def split: if_splits)

text \<open>The two conversions that the Int case applies before it stores.\<close>

lemma ucast_ucast_32_64 [simp]: "(ucast (ucast (x :: 32 word) :: 64 word) :: 32 word) = x"
  by (rule bit_word_eqI) (auto simp: bit_simps)

lemma ucast_scast_16_64 [simp]:
  "(ucast (scast (y :: 16 word) :: 64 word) :: 32 word) = scast y"
  by (rule bit_word_eqI) (auto simp: bit_simps)

lemma of_nat_less_unat:
  assumes "n < unat (c :: 32 word)"
  shows "(of_nat n :: 32 word) < c"
proof -
  have "unat (of_nat n :: 32 word) \<le> n"
    by (simp add: unat_of_nat)
  with assms show ?thesis
    by (simp add: word_less_nat_alt)
qed

lemma atStructField_Done [simp]: "atStructField name out = Done \<longleftrightarrow> out = Done"
  by (cases out) auto

lemma atListIndex_Done [simp]: "atListIndex i out = Done \<longleftrightarrow> out = Done"
  by (cases out) auto

text \<open>The loop over \<^verbatim>\<open>v.Index(i)\<close> stores into the slots it is given and adds none.\<close>

lemma readIndexed_length:
  "readIndexed R f tag xs s = (out, ys, s') \<Longrightarrow> length ys = length xs"
proof (induction xs arbitrary: s out ys s')
  case Nil
  then show ?case by simp
next
  case (Cons x xs)
  then show ?case
    by (auto simp: readIndexed.simps split: prod.splits if_splits)
qed

text \<open>
  The in-memory buffer as a reader: a call with an empty buffer does nothing, a call at
  the end of the stream reports \<^verbatim>\<open>io.EOF\<close>, any other call delivers the bytes that are
  there, so that a short stream leaves the tail of the buffer zero and is no error.
\<close>

lemma Read_bytesBuffer:
  "Read bytesBuffer n s =
     (if n = 0 then Inr ([], s)
      else if s = [] then Inl EOF
      else Inr (take n s @ replicate (n - length s) 0, drop n s))"
  by (cases s) (auto simp: Read_def bytesBuffer_def Let_def min_def max_def)

text \<open>
  A 32-bit float keeps its bits through the decoder and the encoder unless it is a
  signalling NaN: the pattern 7F A0 00 00 is stored, and written, as 7F E0 00 00.
\<close>

lemma float32_of_float64_signalling: "float32_of_float64 0x7FA00000 = 0x7FE00000"
  by (simp add: float32_of_float64_def)

lemma float32_of_float64_number: "float32_of_float64 0x3F800000 = 0x3F800000"
  by (simp add: float32_of_float64_def)

lemma readValue_float32:
  "readValue R (Suc f) tagFloat (VFloat32 old) (be32 x @ s)
     = (Done, VFloat32 (float32_of_float64 x), s)"
  by (simp add: readValue.simps readPayload.simps readFloat_def store_def)

lemma writeTag_float32:
  "writeTag out name addr (VFloat32 x)
     = (Done, out @ [tagFloat] @ be16 (of_nat (length name)) @ name
              @ be32 (float32_of_float64 x))"
  by (simp add: writeHeader_def writeValue_def w_def)

subsection \<open>The recursion budget\<close>

text \<open>
  A call that ends with a result or a panic under one budget ends the same way under
  the next one; the lemmas below show this for each function from the same fact about
  the functions it calls.
\<close>

lemma atStructField_fuel [simp]: "atStructField name out = OutOfFuel \<longleftrightarrow> out = OutOfFuel"
  by (cases out) auto

lemma atListIndex_fuel [simp]: "atListIndex i out = OutOfFuel \<longleftrightarrow> out = OutOfFuel"
  by (cases out) auto

lemma readIndexed_more_fuel:
  assumes V: "\<forall>tag v s res. readValue R f tag v s = res \<longrightarrow> fst res \<noteq> OutOfFuel
                \<longrightarrow> readValue R (Suc f) tag v s = res"
  shows "readIndexed R f tag xs s = res \<Longrightarrow> fst res \<noteq> OutOfFuel
           \<Longrightarrow> readIndexed R (Suc f) tag xs s = res"
proof (induction xs arbitrary: s res)
  case Nil
  then show ?case by simp
next
  case (Cons x xs)
  obtain out x' s1 where hd: "readValue R f tag x s = (out, x', s1)"
    by (cases "readValue R f tag x s") auto
  show ?case
  proof (cases "out = Done")
    case True
    obtain out' xs' s2 where tl: "readIndexed R f tag xs s1 = (out', xs', s2)"
      by (cases "readIndexed R f tag xs s1") auto
    from Cons.prems hd True tl have res: "res = (out', x' # xs', s2)" and "out' \<noteq> OutOfFuel"
      by auto
    then have "readIndexed R (Suc f) tag xs s1 = (out', xs', s2)"
      using Cons.IH [OF tl] by simp
    moreover have "readValue R (Suc f) tag x s = (out, x', s1)"
      using V [rule_format, OF hd] True by simp
    ultimately show ?thesis
      using True res by simp
  next
    case False
    from Cons.prems hd False have res: "res = (out, x' # xs, s1)" and "out \<noteq> OutOfFuel"
      by auto
    then have "readValue R (Suc f) tag x s = (out, x', s1)"
      using V [rule_format, OF hd] by simp
    then show ?thesis
      using False res by simp
  qed
qed

lemma readListElems_more_fuel:
  assumes V: "\<forall>tag v s res. readValue R f tag v s = res \<longrightarrow> fst res \<noteq> OutOfFuel
                \<longrightarrow> readValue R (Suc f) tag v s = res"
  shows "readListElems R f inner t k i acc s = res \<Longrightarrow> fst res \<noteq> OutOfFuel
           \<Longrightarrow> readListElems R (Suc f) inner t k i acc s = res"
proof (induction k arbitrary: i acc s res)
  case 0
  then show ?case by simp
next
  case (Suc k)
  show ?case
  proof (cases "listSlot t inner")
    case (Inl e)
    with Suc.prems show ?thesis by simp
  next
    case (Inr slot)
    obtain out x s1 where hd: "readValue R f inner slot s = (out, x, s1)"
      by (cases "readValue R f inner slot s") auto
    show ?thesis
    proof (cases "out = Done")
      case True
      have v: "readValue R (Suc f) inner slot s = (out, x, s1)"
        using V [rule_format, OF hd] True by simp
      from Suc.prems Inr hd True
      have "readListElems R f inner t k (Suc i) (acc @ [listElem t x]) s1 = res"
        by simp
      from Suc.IH [OF this Suc.prems(2)] show ?thesis
        using Inr v True by simp
    next
      case False
      from Suc.prems Inr hd False have res: "res = (atListIndex i out, acc, s1)"
        and "out \<noteq> OutOfFuel"
        by auto
      then have "readValue R (Suc f) inner slot s = (out, x, s1)"
        using V [rule_format, OF hd] by simp
      then show ?thesis
        using Inr False res by simp
    qed
  qed
qed


lemma readStructFields_more_fuel:
  assumes V: "\<forall>tag v s res. readValue R f tag v s = res \<longrightarrow> fst res \<noteq> OutOfFuel
                \<longrightarrow> readValue R (Suc f) tag v s = res"
    and S: "\<forall>fs name s res. readStructFields R f fs name s = res \<longrightarrow> fst res \<noteq> OutOfFuel
                \<longrightarrow> readStructFields R (Suc f) fs name s = res"
  shows "readStructFields R (Suc f) fs name s = res \<Longrightarrow> fst res \<noteq> OutOfFuel
           \<Longrightarrow> readStructFields R (Suc (Suc f)) fs name s = res"
proof -
  assume run: "readStructFields R (Suc f) fs name s = res" and fuel: "fst res \<noteq> OutOfFuel"
  show ?thesis
  proof (cases "readTag R s")
    case (Inl e)
    with run show ?thesis by simp
  next
    case (Inr hdr)
    obtain name' tag s1 where hdr: "hdr = ((name', tag), s1)"
      by (cases hdr) auto
    show ?thesis
    proof (cases "tag = tagEnd \<or> map_of fs name' = None")
      case True
      with run Inr hdr show ?thesis by auto
    next
      case False
      then obtain field where field: "map_of fs name' = Some field" and tag: "tag \<noteq> tagEnd"
        by auto
      obtain out field' s2 where val: "readValue R f tag field s1 = (out, field', s2)"
        by (cases "readValue R f tag field s1") auto
      show ?thesis
      proof (cases "out = Done")
        case True
        have v: "readValue R (Suc f) tag field s1 = (out, field', s2)"
          using V [rule_format, OF val] True by simp
        from run Inr hdr field tag val True
        have "readStructFields R f (AList.update name' field' fs) name' s2 = res"
          by simp
        from S [rule_format, OF this fuel] show ?thesis
          using Inr hdr field tag v True by simp
      next
        case False
        from run Inr hdr field tag val False
        have res: "res = (atStructField name' out, VStruct (AList.update name' field' fs), s2)"
          by simp
        with fuel have "out \<noteq> OutOfFuel"
          by simp
        then have "readValue R (Suc f) tag field s1 = (out, field', s2)"
          using V [rule_format, OF val] by simp
        then show ?thesis
          using Inr hdr field tag False res by simp
      qed
    qed
  qed
qed

lemma readMapEntries_more_fuel:
  assumes V: "\<forall>tag v s res. readValue R f tag v s = res \<longrightarrow> fst res \<noteq> OutOfFuel
                \<longrightarrow> readValue R (Suc f) tag v s = res"
    and M: "\<forall>t m name s res. readMapEntries R f t m name s = res \<longrightarrow> fst res \<noteq> OutOfFuel
                \<longrightarrow> readMapEntries R (Suc f) t m name s = res"
  shows "readMapEntries R (Suc f) t m name s = res \<Longrightarrow> fst res \<noteq> OutOfFuel
           \<Longrightarrow> readMapEntries R (Suc (Suc f)) t m name s = res"
proof -
  assume run: "readMapEntries R (Suc f) t m name s = res" and fuel: "fst res \<noteq> OutOfFuel"
  show ?thesis
  proof (cases "readTag R s")
    case (Inl e)
    with run show ?thesis by simp
  next
    case (Inr hdr)
    obtain name' tag s1 where hdr: "hdr = ((name', tag), s1)"
      by (cases hdr) auto
    show ?thesis
    proof (cases "tag = tagEnd")
      case True
      with run Inr hdr show ?thesis by auto
    next
      case tag: False
      show ?thesis
      proof (cases "allocate tag")
        case (Inl e)
        with run Inr hdr tag show ?thesis by simp
      next
        case alloc: (Inr a)
        obtain out val s2 where val: "readValue R f tag a s1 = (out, val, s2)"
          by (cases "readValue R f tag a s1") auto
        show ?thesis
        proof (cases "out = Done")
          case True
          have v: "readValue R (Suc f) tag a s1 = (out, val, s2)"
            using V [rule_format, OF val] True by simp
          show ?thesis
          proof (cases "SetMapIndex t m name' val")
            case None
            with run Inr hdr tag alloc val v True show ?thesis by simp
          next
            case (Some m')
            with run Inr hdr tag alloc val True
            have "readMapEntries R f t m' name' s2 = res"
              by simp
            from M [rule_format, OF this fuel] show ?thesis
              using Inr hdr tag alloc v True Some by simp
          qed
        next
          case False
          from run Inr hdr tag alloc val False
          have res: "res = (atStructField name' out, VMap t (Some m), s2)"
            by simp
          with fuel have "out \<noteq> OutOfFuel"
            by simp
          then have "readValue R (Suc f) tag a s1 = (out, val, s2)"
            using V [rule_format, OF val] by simp
          then show ?thesis
            using Inr hdr tag alloc False res by simp
        qed
      qed
    qed
  qed
qed


lemma readPayload_scalar_fuel:
  assumes "tag \<noteq> tagByteArray" "tag \<noteq> tagList" "tag \<noteq> tagCompound" "tag \<noteq> tagIntArray"
    "tag \<noteq> tagLongArray"
  shows "readPayload R f settable tag v s = readPayload R g settable tag v s"
  using assms by (simp add: readPayload.simps)

lemma readPayload_more_fuel:
  assumes I: "\<forall>tag xs s res. readIndexed R f tag xs s = res \<longrightarrow> fst res \<noteq> OutOfFuel
                \<longrightarrow> readIndexed R (Suc f) tag xs s = res"
    and L: "\<forall>inner t k i acc s res. readListElems R f inner t k i acc s = res
                \<longrightarrow> fst res \<noteq> OutOfFuel \<longrightarrow> readListElems R (Suc f) inner t k i acc s = res"
    and S: "\<forall>fs name s res. readStructFields R f fs name s = res \<longrightarrow> fst res \<noteq> OutOfFuel
                \<longrightarrow> readStructFields R (Suc f) fs name s = res"
    and M: "\<forall>t m name s res. readMapEntries R f t m name s = res \<longrightarrow> fst res \<noteq> OutOfFuel
                \<longrightarrow> readMapEntries R (Suc f) t m name s = res"
  shows "readPayload R f settable tag v s = res \<Longrightarrow> fst res \<noteq> OutOfFuel
           \<Longrightarrow> readPayload R (Suc f) settable tag v s = res"
proof -
  assume run: "readPayload R f settable tag v s = res" and fuel: "fst res \<noteq> OutOfFuel"
  have I': "readIndexed R (Suc f) tag' xs s' = readIndexed R f tag' xs s'"
    if "fst (readIndexed R f tag' xs s') \<noteq> OutOfFuel" for tag' xs s'
    using I [rule_format, OF refl that] .
  have L': "readListElems R (Suc f) inner t k i acc s' = readListElems R f inner t k i acc s'"
    if "fst (readListElems R f inner t k i acc s') \<noteq> OutOfFuel" for inner t k i acc s'
    using L [rule_format, OF refl that] .
  have S': "readStructFields R (Suc f) fs name s' = readStructFields R f fs name s'"
    if "fst (readStructFields R f fs name s') \<noteq> OutOfFuel" for fs name s'
    using S [rule_format, OF refl that] .
  have M': "readMapEntries R (Suc f) t m name s' = readMapEntries R f t m name s'"
    if "fst (readMapEntries R f t m name s') \<noteq> OutOfFuel" for t m name s'
    using M [rule_format, OF refl that] .
  have array: "(case readIndexed R (Suc f) tag' xs s' of (out, ys, s2) \<Rightarrow> (out, h ys, s2)) = res'"
    if "(case readIndexed R f tag' xs s' of (out, ys, s2) \<Rightarrow> (out, h ys, s2)) = res'"
      and "fst res' \<noteq> OutOfFuel" for tag' xs s' h res'
  proof -
    from that have "fst (readIndexed R f tag' xs s') \<noteq> OutOfFuel"
      by (auto split: prod.splits)
    from I' [OF this] that(1) show ?thesis by simp
  qed
  have list: "(case readListElems R (Suc f) inner t k i acc s' of (out, ys, s2) \<Rightarrow> (out, h ys, s2))
                = res'"
    if "(case readListElems R f inner t k i acc s' of (out, ys, s2) \<Rightarrow> (out, h ys, s2)) = res'"
      and "fst res' \<noteq> OutOfFuel" for inner t k i acc s' h res'
  proof -
    from that have "fst (readListElems R f inner t k i acc s') \<noteq> OutOfFuel"
      by (auto split: prod.splits)
    from L' [OF this] that(1) show ?thesis by simp
  qed
  consider (arr) "tag = tagByteArray \<or> tag = tagIntArray \<or> tag = tagLongArray"
    | (lst) "tag = tagList" | (cmp) "tag = tagCompound"
    | (other) "tag \<noteq> tagByteArray" "tag \<noteq> tagList" "tag \<noteq> tagCompound" "tag \<noteq> tagIntArray"
        "tag \<noteq> tagLongArray"
    by blast
  then show ?thesis
  proof cases
    case arr
    show ?thesis
    proof (cases "r 4 s")
      case (Inl e)
      with arr run show ?thesis by (auto simp: readPayload.simps)
    next
      case (Inr p)
      obtain bs s1 where p: "p = (bs, s1)" by (cases p) auto
      show ?thesis
      proof (cases "arrayTarget settable tag (beword bs) v")
        case (Inl e)
        with arr run Inr p show ?thesis by (auto simp: readPayload.simps)
      next
        case tgt: (Inr v1)
        from arr run fuel Inr p tgt show ?thesis
          by (auto simp: readPayload.simps intro!: array)
      qed
    qed
  next
    case lst
    show ?thesis
    proof (cases "r 1 s")
      case (Inl e)
      with lst run show ?thesis by (simp add: readPayload.simps)
    next
      case (Inr p)
      obtain bs s1 where p: "p = (bs, s1)" by (cases p) auto
      show ?thesis
      proof (cases "r 4 s1")
        case (Inl e)
        with lst run Inr p show ?thesis by (simp add: readPayload.simps)
      next
        case cnt: (Inr p')
        obtain bs' s2 where p': "p' = (bs', s2)" by (cases p') auto
        show ?thesis
        proof (cases "kindOf v = KSlice \<and> settable")
          case True
          with lst run fuel Inr p cnt p' show ?thesis
            by (simp add: readPayload.simps list)
        next
          case False
          with lst run Inr p cnt p' show ?thesis
            by (auto simp: readPayload.simps)
        qed
      qed
    qed
  next
    case cmp
    show ?thesis
    proof (cases "kindOf v = KStruct")
      case True
      show ?thesis
      proof (cases "parseStruct v")
        case None
        with cmp True run show ?thesis by (simp add: readPayload.simps)
      next
        case (Some fs)
        with cmp True run fuel have "fst (readStructFields R f fs [] s) \<noteq> OutOfFuel"
          by (auto simp: readPayload.simps)
        from S' [OF this] cmp True run Some show ?thesis
          by (simp add: readPayload.simps)
      qed
    next
      case notstruct: False
      show ?thesis
      proof (cases "kindOf v = KMap")
        case True
        show ?thesis
        proof (cases "mapTarget settable v")
          case (Inl e)
          with cmp notstruct True run show ?thesis by (simp add: readPayload.simps)
        next
          case (Inr es)
          with cmp notstruct True run fuel
          have "fst (readMapEntries R f (elemTypeOf v) es [] s) \<noteq> OutOfFuel"
            by (auto simp: readPayload.simps)
          from M' [OF this] cmp notstruct True run Inr show ?thesis
            by (simp add: readPayload.simps)
        qed
      next
        case False
        with cmp notstruct run show ?thesis by (simp add: readPayload.simps)
      qed
    qed
  next
    case other
    from readPayload_scalar_fuel [OF other, of R "Suc f" settable v s f] run show ?thesis
      by simp
  qed
qed

lemma readValue_more_fuel:
  assumes P: "\<forall>settable tag v s res. readPayload R f settable tag v s = res
                \<longrightarrow> fst res \<noteq> OutOfFuel \<longrightarrow> readPayload R (Suc f) settable tag v s = res"
  shows "readValue R (Suc f) tag v s = res \<Longrightarrow> fst res \<noteq> OutOfFuel
           \<Longrightarrow> readValue R (Suc (Suc f)) tag v s = res"
proof -
  assume run: "readValue R (Suc f) tag v s = res" and fuel: "fst res \<noteq> OutOfFuel"
  have P': "readPayload R (Suc f) settable tag' v' s' = readPayload R f settable tag' v' s'"
    if "fst (readPayload R f settable tag' v' s') \<noteq> OutOfFuel" for settable tag' v' s'
    using P [rule_format, OF refl that] .
  consider (guard) "kindOf v = KInt \<or> kindOf v = KUint"
    | (iface) "kindOf v = KInterface" | (ptr) "kindOf v = KPtr"
    | (plain) "kindOf v \<noteq> KInt" "kindOf v \<noteq> KUint" "kindOf v \<noteq> KInterface" "kindOf v \<noteq> KPtr"
    by blast
  then show ?thesis
  proof cases
    case guard
    with run show ?thesis by (auto simp: readValue.simps)
  next
    case iface
    show ?thesis
    proof (cases "allocate tag")
      case (Inl e)
      with iface run show ?thesis by (simp add: readValue.simps)
    next
      case (Inr a)
      with iface run fuel have "fst (readPayload R f False tag a s) \<noteq> OutOfFuel"
        by (auto simp: readValue.simps split: prod.splits)
      from P' [OF this] iface run Inr show ?thesis
        by (simp add: readValue.simps)
    qed
  next
    case ptr
    with run fuel have "fst (readPayload R f True tag (zero (elemTypeOf v)) s) \<noteq> OutOfFuel"
      by (auto simp: readValue.simps split: prod.splits)
    from P' [OF this] ptr run show ?thesis
      by (simp add: readValue.simps)
  next
    case plain
    with run fuel have "fst (readPayload R f True tag v s) \<noteq> OutOfFuel"
      by (auto simp: readValue.simps)
    from P' [OF this] plain run show ?thesis
      by (simp add: readValue.simps)
  qed
qed

text \<open>
  The recursion budget is only a device: a call that ends with a result or a panic ends
  the same way under every larger budget.
\<close>

lemma one_more_fuel:
  "(\<forall>tag v s res. readValue R f tag v s = res \<longrightarrow> fst res \<noteq> OutOfFuel
        \<longrightarrow> readValue R (Suc f) tag v s = res)
   \<and> (\<forall>tag xs s res. readIndexed R f tag xs s = res \<longrightarrow> fst res \<noteq> OutOfFuel
        \<longrightarrow> readIndexed R (Suc f) tag xs s = res)
   \<and> (\<forall>inner t k i acc s res. readListElems R f inner t k i acc s = res
        \<longrightarrow> fst res \<noteq> OutOfFuel \<longrightarrow> readListElems R (Suc f) inner t k i acc s = res)
   \<and> (\<forall>fs name s res. readStructFields R f fs name s = res \<longrightarrow> fst res \<noteq> OutOfFuel
        \<longrightarrow> readStructFields R (Suc f) fs name s = res)
   \<and> (\<forall>t m name s res. readMapEntries R f t m name s = res \<longrightarrow> fst res \<noteq> OutOfFuel
        \<longrightarrow> readMapEntries R (Suc f) t m name s = res)
   \<and> (\<forall>settable tag v s res. readPayload R f settable tag v s = res \<longrightarrow> fst res \<noteq> OutOfFuel
        \<longrightarrow> readPayload R (Suc f) settable tag v s = res)"
proof (induction f)
  case 0
  have V: "\<forall>tag v s res. readValue R 0 tag v s = res \<longrightarrow> fst res \<noteq> OutOfFuel
        \<longrightarrow> readValue R (Suc 0) tag v s = res"
    by (auto simp: readValue.simps)
  have S: "\<forall>fs name s res. readStructFields R 0 fs name s = res \<longrightarrow> fst res \<noteq> OutOfFuel
        \<longrightarrow> readStructFields R (Suc 0) fs name s = res"
    by auto
  have M: "\<forall>t m name s res. readMapEntries R 0 t m name s = res \<longrightarrow> fst res \<noteq> OutOfFuel
        \<longrightarrow> readMapEntries R (Suc 0) t m name s = res"
    by auto
  have I: "\<forall>tag xs s res. readIndexed R 0 tag xs s = res \<longrightarrow> fst res \<noteq> OutOfFuel
        \<longrightarrow> readIndexed R (Suc 0) tag xs s = res"
    using readIndexed_more_fuel [OF V] by blast
  have L: "\<forall>inner t k i acc s res. readListElems R 0 inner t k i acc s = res
        \<longrightarrow> fst res \<noteq> OutOfFuel \<longrightarrow> readListElems R (Suc 0) inner t k i acc s = res"
    using readListElems_more_fuel [OF V] by blast
  have P: "\<forall>settable tag v s res. readPayload R 0 settable tag v s = res
        \<longrightarrow> fst res \<noteq> OutOfFuel \<longrightarrow> readPayload R (Suc 0) settable tag v s = res"
    using readPayload_more_fuel [OF I L S M] by blast
  from V I L S M P show ?case
    by (intro conjI)
next
  case (Suc f)
  then have V0: "\<forall>tag v s res. readValue R f tag v s = res \<longrightarrow> fst res \<noteq> OutOfFuel
        \<longrightarrow> readValue R (Suc f) tag v s = res"
    and S0: "\<forall>fs name s res. readStructFields R f fs name s = res \<longrightarrow> fst res \<noteq> OutOfFuel
        \<longrightarrow> readStructFields R (Suc f) fs name s = res"
    and M0: "\<forall>t m name s res. readMapEntries R f t m name s = res \<longrightarrow> fst res \<noteq> OutOfFuel
        \<longrightarrow> readMapEntries R (Suc f) t m name s = res"
    and P0: "\<forall>settable tag v s res. readPayload R f settable tag v s = res
        \<longrightarrow> fst res \<noteq> OutOfFuel \<longrightarrow> readPayload R (Suc f) settable tag v s = res"
    by simp_all
  have V: "\<forall>tag v s res. readValue R (Suc f) tag v s = res \<longrightarrow> fst res \<noteq> OutOfFuel
        \<longrightarrow> readValue R (Suc (Suc f)) tag v s = res"
    using readValue_more_fuel [OF P0] by blast
  have I: "\<forall>tag xs s res. readIndexed R (Suc f) tag xs s = res \<longrightarrow> fst res \<noteq> OutOfFuel
        \<longrightarrow> readIndexed R (Suc (Suc f)) tag xs s = res"
    using readIndexed_more_fuel [OF V] by blast
  have L: "\<forall>inner t k i acc s res. readListElems R (Suc f) inner t k i acc s = res
        \<longrightarrow> fst res \<noteq> OutOfFuel \<longrightarrow> readListElems R (Suc (Suc f)) inner t k i acc s = res"
    using readListElems_more_fuel [OF V] by blast
  have S: "\<forall>fs name s res. readStructFields R (Suc f) fs name s = res
        \<longrightarrow> fst res \<noteq> OutOfFuel \<longrightarrow> readStructFields R (Suc (Suc f)) fs name s = res"
    using readStructFields_more_fuel [OF V0 S0] by blast
  have M: "\<forall>t m name s res. readMapEntries R (Suc f) t m name s = res
        \<longrightarrow> fst res \<noteq> OutOfFuel \<longrightarrow> readMapEntries R (Suc (Suc f)) t m name s = res"
    using readMapEntries_more_fuel [OF V0 M0] by blast
  have P: "\<forall>settable tag v s res. readPayload R (Suc f) settable tag v s = res
        \<longrightarrow> fst res \<noteq> OutOfFuel \<longrightarrow> readPayload R (Suc (Suc f)) settable tag v s = res"
    using readPayload_more_fuel [OF I L S M] by blast
  from V I L S M P show ?case
    by (intro conjI)
qed

lemma readValue_fuel_mono:
  assumes "readValue R f tag v s = res" and "fst res \<noteq> OutOfFuel" and "f \<le> g"
  shows "readValue R g tag v s = res"
proof -
  from \<open>f \<le> g\<close> obtain k where g: "g = f + k"
    by (auto simp: le_iff_add)
  have "readValue R (f + k) tag v s = res"
  proof (induction k)
    case 0
    then show ?case using assms(1) by simp
  next
    case (Suc k)
    with assms(2) one_more_fuel [of R "f + k"] show ?case
      by simp
  qed
  then show ?thesis
    by (simp add: g)
qed

subsection \<open>The decoder ends on every stream\<close>

text \<open>What a step reads it takes from the front of the stream: the rest is never longer.\<close>

lemma r_rest: "r n s = Inr (bs, s1) \<Longrightarrow> length s1 + n = length s"
  by (auto simp: r_def split: if_splits)

lemma Read_rest: "Read R n s = Inr (bs, s1) \<Longrightarrow> length s1 \<le> length s"
  by (auto simp: Read_def Let_def split: if_splits)

lemma readString_rest: "readString R s = Inr (str, s1) \<Longrightarrow> length s1 + 2 \<le> length s"
  by (auto simp: readString_def split: sum.splits prod.splits dest!: r_rest Read_rest)

lemma readTag_rest:
  assumes "readTag R s = Inr ((name, tag), s1)"
  shows "length s1 + 1 \<le> length s" and "tag \<noteq> tagEnd \<Longrightarrow> length s1 + 3 \<le> length s"
  using assms
  by (auto simp: readTag_def Let_def split: sum.splits prod.splits if_splits
           dest!: r_rest readString_rest)

lemma store_rest [simp]: "snd (snd (store settable v v' s)) = s"
  by (simp add: store_def)

lemma scalar_rest:
  "length (snd (snd (readByte settable v s))) \<le> length s"
  "length (snd (snd (readShort settable v s))) \<le> length s"
  "length (snd (snd (readInt settable v s))) \<le> length s"
  "length (snd (snd (readLong settable v s))) \<le> length s"
  "length (snd (snd (readFloat settable v s))) \<le> length s"
  "length (snd (snd (readDouble settable v s))) \<le> length s"
  "length (snd (snd (readStringValue R settable v s))) \<le> length s"
  by (auto simp: readByte_def readShort_def readInt_def readLong_def readFloat_def
        readDouble_def readStringValue_def Let_def
        split: sum.splits prod.splits dest!: r_rest readString_rest)

lemma scalar_fuel:
  "fst (readByte settable v s) \<noteq> OutOfFuel"
  "fst (readShort settable v s) \<noteq> OutOfFuel"
  "fst (readInt settable v s) \<noteq> OutOfFuel"
  "fst (readLong settable v s) \<noteq> OutOfFuel"
  "fst (readFloat settable v s) \<noteq> OutOfFuel"
  "fst (readDouble settable v s) \<noteq> OutOfFuel"
  "fst (readStringValue R settable v s) \<noteq> OutOfFuel"
  by (auto simp: readByte_def readShort_def readInt_def readLong_def readFloat_def
        readDouble_def readStringValue_def Let_def store_def
        split: sum.splits prod.splits)

lemma readIndexed_rest:
  assumes V: "\<forall>tag v s. length (snd (snd (readValue R f tag v s))) \<le> length s"
  shows "length (snd (snd (readIndexed R f tag xs s))) \<le> length s"
proof (induction xs arbitrary: s)
  case Nil
  then show ?case by simp
next
  case (Cons x xs)
  obtain out x' s1 where hd: "readValue R f tag x s = (out, x', s1)"
    by (cases "readValue R f tag x s") auto
  with V [rule_format, of tag x s] have s1: "length s1 \<le> length s"
    by simp
  show ?case
    using hd s1 Cons.IH [of s1] by (auto split: prod.splits)
qed

lemma readListElems_rest:
  assumes V: "\<forall>tag v s. length (snd (snd (readValue R f tag v s))) \<le> length s"
  shows "length (snd (snd (readListElems R f inner t k i acc s))) \<le> length s"
proof (induction k arbitrary: i acc s)
  case 0
  then show ?case by simp
next
  case (Suc k)
  show ?case
  proof (cases "listSlot t inner")
    case (Inl e)
    then show ?thesis by simp
  next
    case (Inr slot)
    obtain out x s1 where hd: "readValue R f inner slot s = (out, x, s1)"
      by (cases "readValue R f inner slot s") auto
    with V [rule_format, of inner slot s] have s1: "length s1 \<le> length s"
      by simp
    show ?thesis
      using Inr hd s1 Suc.IH [of "Suc i" "acc @ [listElem t x]" s1] by auto
  qed
qed

lemma readStructFields_rest:
  assumes V: "\<forall>tag v s. length (snd (snd (readValue R f tag v s))) \<le> length s"
    and S: "\<forall>fs name s. length (snd (snd (readStructFields R f fs name s))) \<le> length s"
  shows "length (snd (snd (readStructFields R (Suc f) fs name s))) \<le> length s"
proof (cases "readTag R s")
  case (Inl e)
  then show ?thesis by simp
next
  case (Inr hdr)
  obtain name' tag s1 where hdr: "hdr = ((name', tag), s1)"
    by (cases hdr) auto
  from readTag_rest(1) [of R s name' tag s1] Inr hdr have s1: "length s1 \<le> length s"
    by simp
  show ?thesis
  proof (cases "map_of fs name'")
    case None
    with Inr hdr s1 show ?thesis by simp
  next
    case (Some field)
    obtain out field' s2 where val: "readValue R f tag field s1 = (out, field', s2)"
      by (cases "readValue R f tag field s1") auto
    with V [rule_format, of tag field s1] s1 have s2: "length s2 \<le> length s"
      by simp
    show ?thesis
      using Inr hdr Some val s1 s2
        S [rule_format, of "AList.update name' field' fs" name' s2]
      by auto
  qed
qed

lemma readMapEntries_rest:
  assumes V: "\<forall>tag v s. length (snd (snd (readValue R f tag v s))) \<le> length s"
    and M: "\<forall>t m name s. length (snd (snd (readMapEntries R f t m name s))) \<le> length s"
  shows "length (snd (snd (readMapEntries R (Suc f) t m name s))) \<le> length s"
proof (cases "readTag R s")
  case (Inl e)
  then show ?thesis by simp
next
  case (Inr hdr)
  obtain name' tag s1 where hdr: "hdr = ((name', tag), s1)"
    by (cases hdr) auto
  from readTag_rest(1) [of R s name' tag s1] Inr hdr have s1: "length s1 \<le> length s"
    by simp
  show ?thesis
  proof (cases "allocate tag")
    case (Inl e)
    with Inr hdr s1 show ?thesis by simp
  next
    case alloc: (Inr a)
    obtain out val s2 where val: "readValue R f tag a s1 = (out, val, s2)"
      by (cases "readValue R f tag a s1") auto
    with V [rule_format, of tag a s1] s1 have s2: "length s2 \<le> length s"
      by simp
    show ?thesis
    proof (cases "SetMapIndex t m name' val")
      case None
      with Inr hdr alloc val s1 s2 show ?thesis by auto
    next
      case (Some m')
      with Inr hdr alloc val s1 s2 M [rule_format, of t m' name' s2] show ?thesis
        by auto
    qed
  qed
qed

lemma readPayload_rest:
  assumes I: "\<forall>tag xs s. length (snd (snd (readIndexed R f tag xs s))) \<le> length s"
    and L: "\<forall>inner t k i acc s.
              length (snd (snd (readListElems R f inner t k i acc s))) \<le> length s"
    and S: "\<forall>fs name s. length (snd (snd (readStructFields R f fs name s))) \<le> length s"
    and M: "\<forall>t m name s. length (snd (snd (readMapEntries R f t m name s))) \<le> length s"
  shows "length (snd (snd (readPayload R f settable tag v s))) \<le> length s"
proof -
  have array: "length (snd (snd (case readIndexed R f tag' xs s1 of
                  (out, ys, s2) \<Rightarrow> (out, h ys, s2)))) \<le> length s"
    if "length s1 \<le> length s" for tag' xs s1 h
    using I [rule_format, of tag' xs s1] that by (auto split: prod.splits)
  consider (arr) "tag = tagByteArray \<or> tag = tagIntArray \<or> tag = tagLongArray"
    | (lst) "tag = tagList" | (cmp) "tag = tagCompound"
    | (other) "tag \<noteq> tagByteArray" "tag \<noteq> tagList" "tag \<noteq> tagCompound" "tag \<noteq> tagIntArray"
        "tag \<noteq> tagLongArray"
    by blast
  then show ?thesis
  proof cases
    case arr
    show ?thesis
    proof (cases "r 4 s")
      case (Inl e)
      with arr show ?thesis by (auto simp: readPayload.simps)
    next
      case (Inr p)
      obtain bs s1 where p: "p = (bs, s1)" by (cases p) auto
      with Inr have s1: "length s1 \<le> length s"
        using r_rest [of 4 s bs s1] by simp
      show ?thesis
      proof (cases "arrayTarget settable tag (beword bs) v")
        case (Inl e)
        with arr Inr p s1 show ?thesis by (auto simp: readPayload.simps)
      next
        case tgt: (Inr v1)
        from arr Inr p tgt array [OF s1] show ?thesis
          by (auto simp: readPayload.simps)
      qed
    qed
  next
    case lst
    show ?thesis
    proof (cases "r 1 s")
      case (Inl e)
      with lst show ?thesis by (simp add: readPayload.simps)
    next
      case (Inr p)
      obtain bs s1 where p: "p = (bs, s1)" by (cases p) auto
      with Inr have s1: "length s1 \<le> length s"
        using r_rest [of 1 s bs s1] by simp
      show ?thesis
      proof (cases "r 4 s1")
        case (Inl e)
        with lst Inr p show ?thesis by (simp add: readPayload.simps)
      next
        case cnt: (Inr p')
        obtain bs' s2 where p': "p' = (bs', s2)" by (cases p') auto
        with cnt s1 have s2: "length s2 \<le> length s"
          using r_rest [of 4 s1 bs' s2] by simp
        from lst Inr p cnt p' s2
          L [rule_format, of "beword bs" "elemTypeOf v" "unat (beword bs' :: 32 word)" 0 "[]" s2]
        show ?thesis
          by (auto simp: readPayload.simps split: prod.splits)
      qed
    qed
  next
    case cmp
    with S [rule_format, of _ "[]" s] M [rule_format, of _ _ "[]" s] show ?thesis
      by (auto simp: readPayload.simps split: option.splits sum.splits)
  next
    case other
    with scalar_rest(1-6) [of settable v s] scalar_rest(7) [of R settable v s] show ?thesis
      by (simp add: readPayload.simps)
  qed
qed

lemma readValue_rest_step:
  assumes P: "\<forall>settable tag v s. length (snd (snd (readPayload R f settable tag v s))) \<le> length s"
  shows "length (snd (snd (readValue R (Suc f) tag v s))) \<le> length s"
proof -
  have p: "length (snd (snd (readPayload R f settable tag x s))) \<le> length s" for settable x
    using P by blast
  show ?thesis
  proof (cases "allocate tag")
    case (Inl e)
    with p [of True v] p [of True "zero (elemTypeOf v)"] show ?thesis
      by (auto simp: readValue.simps split: prod.splits)
  next
    case (Inr a)
    with p [of True v] p [of True "zero (elemTypeOf v)"] p [of False a] show ?thesis
      by (auto simp: readValue.simps split: prod.splits)
  qed
qed

lemma rest_never_longer:
  "(\<forall>tag v s. length (snd (snd (readValue R f tag v s))) \<le> length s)
   \<and> (\<forall>tag xs s. length (snd (snd (readIndexed R f tag xs s))) \<le> length s)
   \<and> (\<forall>inner t k i acc s.
         length (snd (snd (readListElems R f inner t k i acc s))) \<le> length s)
   \<and> (\<forall>fs name s. length (snd (snd (readStructFields R f fs name s))) \<le> length s)
   \<and> (\<forall>t m name s. length (snd (snd (readMapEntries R f t m name s))) \<le> length s)
   \<and> (\<forall>settable tag v s. length (snd (snd (readPayload R f settable tag v s))) \<le> length s)"
proof (induction f)
  case 0
  have V: "\<forall>tag v s. length (snd (snd (readValue R 0 tag v s))) \<le> length s"
    by (simp add: readValue.simps)
  have S: "\<forall>fs name s. length (snd (snd (readStructFields R 0 fs name s))) \<le> length s"
    by simp
  have M: "\<forall>t m name s. length (snd (snd (readMapEntries R 0 t m name s))) \<le> length s"
    by simp
  have I: "\<forall>tag xs s. length (snd (snd (readIndexed R 0 tag xs s))) \<le> length s"
    using readIndexed_rest [OF V] by blast
  have L: "\<forall>inner t k i acc s.
         length (snd (snd (readListElems R 0 inner t k i acc s))) \<le> length s"
    using readListElems_rest [OF V] by blast
  have P: "\<forall>settable tag v s. length (snd (snd (readPayload R 0 settable tag v s))) \<le> length s"
    using readPayload_rest [OF I L S M] by blast
  from V I L S M P show ?case
    by (intro conjI)
next
  case (Suc f)
  then have V0: "\<forall>tag v s. length (snd (snd (readValue R f tag v s))) \<le> length s"
    and S0: "\<forall>fs name s. length (snd (snd (readStructFields R f fs name s))) \<le> length s"
    and M0: "\<forall>t m name s. length (snd (snd (readMapEntries R f t m name s))) \<le> length s"
    and P0: "\<forall>settable tag v s.
               length (snd (snd (readPayload R f settable tag v s))) \<le> length s"
    by simp_all
  have V: "\<forall>tag v s. length (snd (snd (readValue R (Suc f) tag v s))) \<le> length s"
    using readValue_rest_step [OF P0] by blast
  have I: "\<forall>tag xs s. length (snd (snd (readIndexed R (Suc f) tag xs s))) \<le> length s"
    using readIndexed_rest [OF V] by blast
  have L: "\<forall>inner t k i acc s.
         length (snd (snd (readListElems R (Suc f) inner t k i acc s))) \<le> length s"
    using readListElems_rest [OF V] by blast
  have S: "\<forall>fs name s. length (snd (snd (readStructFields R (Suc f) fs name s))) \<le> length s"
    using readStructFields_rest [OF V0 S0] by blast
  have M: "\<forall>t m name s. length (snd (snd (readMapEntries R (Suc f) t m name s))) \<le> length s"
    using readMapEntries_rest [OF V0 M0] by blast
  have P: "\<forall>settable tag v s.
             length (snd (snd (readPayload R (Suc f) settable tag v s))) \<le> length s"
    using readPayload_rest [OF I L S M] by blast
  from V I L S M P show ?case
    by (intro conjI)
qed

lemma readValue_rest: "readValue R f tag v s = (out, v', s') \<Longrightarrow> length s' \<le> length s"
  using rest_never_longer [of R f] by (metis snd_conv)

text \<open>
  A budget a little above the length of the stream is never used up: every round of a
  Compound loop and every nested call is paid for by bytes read.
\<close>

lemma readIndexed_enough:
  assumes V: "\<forall>tag v s. length s + 2 \<le> f \<longrightarrow> fst (readValue R f tag v s) \<noteq> OutOfFuel"
  shows "length s + 2 \<le> f \<Longrightarrow> fst (readIndexed R f tag xs s) \<noteq> OutOfFuel"
proof (induction xs arbitrary: s)
  case Nil
  then show ?case by simp
next
  case (Cons x xs)
  obtain out x' s1 where hd: "readValue R f tag x s = (out, x', s1)"
    by (cases "readValue R f tag x s") auto
  from readValue_rest [OF hd] Cons.prems have "length s1 + 2 \<le> f"
    by simp
  from Cons.IH [OF this] V [rule_format, OF Cons.prems, of tag x] hd show ?case
    by (auto split: prod.splits)
qed

lemma readListElems_enough:
  assumes V: "\<forall>tag v s. length s + 2 \<le> f \<longrightarrow> fst (readValue R f tag v s) \<noteq> OutOfFuel"
  shows "length s + 2 \<le> f \<Longrightarrow> fst (readListElems R f inner t k i acc s) \<noteq> OutOfFuel"
proof (induction k arbitrary: i acc s)
  case 0
  then show ?case by simp
next
  case (Suc k)
  show ?case
  proof (cases "listSlot t inner")
    case (Inl e)
    then show ?thesis by simp
  next
    case (Inr slot)
    obtain out x s1 where hd: "readValue R f inner slot s = (out, x, s1)"
      by (cases "readValue R f inner slot s") auto
    from readValue_rest [OF hd] Suc.prems have "length s1 + 2 \<le> f"
      by simp
    from Suc.IH [OF this] V [rule_format, OF Suc.prems, of inner slot] Inr hd show ?thesis
      by auto
  qed
qed

lemma readStructFields_enough:
  assumes V: "\<forall>tag v s. length s + 2 \<le> f \<longrightarrow> fst (readValue R f tag v s) \<noteq> OutOfFuel"
    and S: "\<forall>fs name s. length s + 1 \<le> f
              \<longrightarrow> fst (readStructFields R f fs name s) \<noteq> OutOfFuel"
  shows "length s + 1 \<le> Suc f \<Longrightarrow> fst (readStructFields R (Suc f) fs name s) \<noteq> OutOfFuel"
proof -
  assume len: "length s + 1 \<le> Suc f"
  show ?thesis
  proof (cases "readTag R s")
    case (Inl e)
    then show ?thesis by simp
  next
    case (Inr hdr)
    obtain name' tag s1 where hdr: "hdr = ((name', tag), s1)"
      by (cases hdr) auto
    show ?thesis
    proof (cases "tag = tagEnd \<or> map_of fs name' = None")
      case True
      with Inr hdr show ?thesis by auto
    next
      case False
      then obtain field where field: "map_of fs name' = Some field" and tag: "tag \<noteq> tagEnd"
        by auto
      from readTag_rest(2) [of R s name' tag s1] Inr hdr tag len have s1: "length s1 + 2 \<le> f"
        by simp
      obtain out field' s2 where val: "readValue R f tag field s1 = (out, field', s2)"
        by (cases "readValue R f tag field s1") auto
      from readValue_rest [OF val] s1 have "length s2 + 1 \<le> f"
        by simp
      from S [rule_format, OF this] V [rule_format, OF s1, of tag field] val Inr hdr field tag
      show ?thesis
        by auto
    qed
  qed
qed

lemma readMapEntries_enough:
  assumes V: "\<forall>tag v s. length s + 2 \<le> f \<longrightarrow> fst (readValue R f tag v s) \<noteq> OutOfFuel"
    and M: "\<forall>t m name s. length s + 1 \<le> f
              \<longrightarrow> fst (readMapEntries R f t m name s) \<noteq> OutOfFuel"
  shows "length s + 1 \<le> Suc f \<Longrightarrow> fst (readMapEntries R (Suc f) t m name s) \<noteq> OutOfFuel"
proof -
  assume len: "length s + 1 \<le> Suc f"
  show ?thesis
  proof (cases "readTag R s")
    case (Inl e)
    then show ?thesis by simp
  next
    case (Inr hdr)
    obtain name' tag s1 where hdr: "hdr = ((name', tag), s1)"
      by (cases hdr) auto
    show ?thesis
    proof (cases "tag = tagEnd")
      case True
      with Inr hdr show ?thesis by auto
    next
      case tag: False
      from readTag_rest(2) [of R s name' tag s1] Inr hdr tag len have s1: "length s1 + 2 \<le> f"
        by simp
      show ?thesis
      proof (cases "allocate tag")
        case (Inl e)
        with Inr hdr tag show ?thesis by simp
      next
        case alloc: (Inr a)
        obtain out val s2 where val: "readValue R f tag a s1 = (out, val, s2)"
          by (cases "readValue R f tag a s1") auto
        from readValue_rest [OF val] s1 have "length s2 + 1 \<le> f"
          by simp
        from M [rule_format, OF this] V [rule_format, OF s1, of tag a] val Inr hdr tag alloc
        show ?thesis
          by (auto split: option.splits)
      qed
    qed
  qed
qed

lemma readPayload_enough:
  assumes I: "\<forall>tag xs s. length s + 2 \<le> f \<longrightarrow> fst (readIndexed R f tag xs s) \<noteq> OutOfFuel"
    and L: "\<forall>inner t k i acc s. length s + 2 \<le> f
              \<longrightarrow> fst (readListElems R f inner t k i acc s) \<noteq> OutOfFuel"
    and S: "\<forall>fs name s. length s + 1 \<le> f
              \<longrightarrow> fst (readStructFields R f fs name s) \<noteq> OutOfFuel"
    and M: "\<forall>t m name s. length s + 1 \<le> f
              \<longrightarrow> fst (readMapEntries R f t m name s) \<noteq> OutOfFuel"
  shows "length s + 1 \<le> f \<Longrightarrow> fst (readPayload R f settable tag v s) \<noteq> OutOfFuel"
proof -
  assume len: "length s + 1 \<le> f"
  consider (arr) "tag = tagByteArray \<or> tag = tagIntArray \<or> tag = tagLongArray"
    | (lst) "tag = tagList" | (cmp) "tag = tagCompound"
    | (other) "tag \<noteq> tagByteArray" "tag \<noteq> tagList" "tag \<noteq> tagCompound" "tag \<noteq> tagIntArray"
        "tag \<noteq> tagLongArray"
    by blast
  then show ?thesis
  proof cases
    case arr
    show ?thesis
    proof (cases "r 4 s")
      case (Inl e)
      with arr show ?thesis by (auto simp: readPayload.simps)
    next
      case (Inr p)
      obtain bs s1 where p: "p = (bs, s1)" by (cases p) auto
      with Inr len have s1: "length s1 + 2 \<le> f"
        using r_rest [of 4 s bs s1] by simp
      show ?thesis
      proof (cases "arrayTarget settable tag (beword bs) v")
        case (Inl e)
        with arr Inr p show ?thesis by (auto simp: readPayload.simps)
      next
        case tgt: (Inr v1)
        have "readIndexed R f tg ys s1 \<noteq> (OutOfFuel, a, b)" for tg ys a b
          using I [rule_format, OF s1, of tg ys] by auto
        with arr Inr p tgt show ?thesis
          by (auto simp: readPayload.simps split: prod.splits)
      qed
    qed
  next
    case lst
    show ?thesis
    proof (cases "r 1 s")
      case (Inl e)
      with lst show ?thesis by (simp add: readPayload.simps)
    next
      case (Inr p)
      obtain bs s1 where p: "p = (bs, s1)" by (cases p) auto
      with Inr have s1: "length s1 + 1 = length s"
        using r_rest [of 1 s bs s1] by simp
      show ?thesis
      proof (cases "r 4 s1")
        case (Inl e)
        with lst Inr p show ?thesis by (simp add: readPayload.simps)
      next
        case cnt: (Inr p')
        obtain bs' s2 where p': "p' = (bs', s2)" by (cases p') auto
        with cnt s1 len have s2: "length s2 + 2 \<le> f"
          using r_rest [of 4 s1 bs' s2] by simp
        from lst Inr p cnt p'
        have "readListElems R f (beword bs) (elemTypeOf v) (unat (beword bs' :: 32 word)) 0 [] s2
            \<noteq> (OutOfFuel, a, b)" for a b
          using L [rule_format, OF s2,
              of "beword bs" "elemTypeOf v" "unat (beword bs' :: 32 word)" 0 "[]"]
          by auto
        with lst Inr p cnt p' show ?thesis
          by (auto simp: readPayload.simps split: prod.splits)
      qed
    qed
  next
    case cmp
    with S [rule_format, OF len, of _ "[]"] M [rule_format, OF len, of _ _ "[]"] show ?thesis
      by (auto simp: readPayload.simps split: option.splits sum.splits)
  next
    case other
    with scalar_fuel(1-6) [of settable v s] scalar_fuel(7) [of R settable v s] show ?thesis
      by (simp add: readPayload.simps)
  qed
qed

lemma readValue_enough_step:
  assumes P: "\<forall>settable tag v s. length s + 1 \<le> f
                \<longrightarrow> fst (readPayload R f settable tag v s) \<noteq> OutOfFuel"
  shows "length s + 2 \<le> Suc f \<Longrightarrow> fst (readValue R (Suc f) tag v s) \<noteq> OutOfFuel"
proof -
  assume "length s + 2 \<le> Suc f"
  then have len: "length s + 1 \<le> f"
    by simp
  have p: "fst (readPayload R f settable tag x s) \<noteq> OutOfFuel" for settable x
    using P len by blast
  show ?thesis
  proof (cases "allocate tag")
    case (Inl e)
    with p [of True v] p [of True "zero (elemTypeOf v)"] show ?thesis
      by (auto simp: readValue.simps split: prod.splits)
  next
    case (Inr a)
    with p [of True v] p [of True "zero (elemTypeOf v)"] p [of False a] show ?thesis
      by (auto simp: readValue.simps split: prod.splits)
  qed
qed

lemma enough_fuel:
  "(\<forall>tag v s. length s + 2 \<le> f \<longrightarrow> fst (readValue R f tag v s) \<noteq> OutOfFuel)
   \<and> (\<forall>tag xs s. length s + 2 \<le> f \<longrightarrow> fst (readIndexed R f tag xs s) \<noteq> OutOfFuel)
   \<and> (\<forall>inner t k i acc s. length s + 2 \<le> f
         \<longrightarrow> fst (readListElems R f inner t k i acc s) \<noteq> OutOfFuel)
   \<and> (\<forall>fs name s. length s + 1 \<le> f \<longrightarrow> fst (readStructFields R f fs name s) \<noteq> OutOfFuel)
   \<and> (\<forall>t m name s. length s + 1 \<le> f \<longrightarrow> fst (readMapEntries R f t m name s) \<noteq> OutOfFuel)
   \<and> (\<forall>settable tag v s. length s + 1 \<le> f
         \<longrightarrow> fst (readPayload R f settable tag v s) \<noteq> OutOfFuel)"
proof (induction f)
  case 0
  have V: "\<forall>tag v s. length s + 2 \<le> 0 \<longrightarrow> fst (readValue R 0 tag v s) \<noteq> OutOfFuel"
    by simp
  have S: "\<forall>fs name s. length s + 1 \<le> 0 \<longrightarrow> fst (readStructFields R 0 fs name s) \<noteq> OutOfFuel"
    by simp
  have M: "\<forall>t m name s. length s + 1 \<le> 0 \<longrightarrow> fst (readMapEntries R 0 t m name s) \<noteq> OutOfFuel"
    by simp
  have I: "\<forall>tag xs s. length s + 2 \<le> 0 \<longrightarrow> fst (readIndexed R 0 tag xs s) \<noteq> OutOfFuel"
    by simp
  have L: "\<forall>inner t k i acc s. length s + 2 \<le> 0
         \<longrightarrow> fst (readListElems R 0 inner t k i acc s) \<noteq> OutOfFuel"
    by simp
  have P: "\<forall>settable tag v s. length s + 1 \<le> 0
         \<longrightarrow> fst (readPayload R 0 settable tag v s) \<noteq> OutOfFuel"
    by simp
  from V I L S M P show ?case
    by (intro conjI)
next
  case (Suc f)
  then have V0: "\<forall>tag v s. length s + 2 \<le> f \<longrightarrow> fst (readValue R f tag v s) \<noteq> OutOfFuel"
    and S0: "\<forall>fs name s. length s + 1 \<le> f
               \<longrightarrow> fst (readStructFields R f fs name s) \<noteq> OutOfFuel"
    and M0: "\<forall>t m name s. length s + 1 \<le> f
               \<longrightarrow> fst (readMapEntries R f t m name s) \<noteq> OutOfFuel"
    and P0: "\<forall>settable tag v s. length s + 1 \<le> f
               \<longrightarrow> fst (readPayload R f settable tag v s) \<noteq> OutOfFuel"
    by simp_all
  have V: "\<forall>tag v s. length s + 2 \<le> Suc f \<longrightarrow> fst (readValue R (Suc f) tag v s) \<noteq> OutOfFuel"
    using readValue_enough_step [OF P0] by blast
  have I: "\<forall>tag xs s. length s + 2 \<le> Suc f
             \<longrightarrow> fst (readIndexed R (Suc f) tag xs s) \<noteq> OutOfFuel"
    using readIndexed_enough [OF V] by blast
  have L: "\<forall>inner t k i acc s. length s + 2 \<le> Suc f
         \<longrightarrow> fst (readListElems R (Suc f) inner t k i acc s) \<noteq> OutOfFuel"
    using readListElems_enough [OF V] by blast
  have S: "\<forall>fs name s. length s + 1 \<le> Suc f
             \<longrightarrow> fst (readStructFields R (Suc f) fs name s) \<noteq> OutOfFuel"
    using readStructFields_enough [OF V0 S0] by blast
  have M: "\<forall>t m name s. length s + 1 \<le> Suc f
             \<longrightarrow> fst (readMapEntries R (Suc f) t m name s) \<noteq> OutOfFuel"
    using readMapEntries_enough [OF V0 M0] by blast
  have P: "\<forall>settable tag v s. length s + 1 \<le> Suc f
         \<longrightarrow> fst (readPayload R (Suc f) settable tag v s) \<noteq> OutOfFuel"
    using readPayload_enough [OF I L S M] by blast
  from V I L S M P show ?case
    by (intro conjI)
qed

text \<open>
  So the decoder ends, with a result or a panic, on every stream, and the way it ends
  does not depend on the budget once the budget exceeds the length of the stream by two.
\<close>

lemma readValue_ends:
  assumes "length s + 2 \<le> f"
  shows "fst (readValue R f tag v s) \<noteq> OutOfFuel"
    and "f \<le> g \<Longrightarrow> readValue R g tag v s = readValue R f tag v s"
proof -
  show ends: "fst (readValue R f tag v s) \<noteq> OutOfFuel"
    using enough_fuel [of f R, THEN conjunct1, rule_format, OF assms] .
  show "readValue R g tag v s = readValue R f tag v s" if "f \<le> g"
    using readValue_fuel_mono [OF refl ends that] .
qed

lemma unmarshal_ends:
  assumes "length d + 2 \<le> f"
  shows "fst (unmarshal R f d v) \<noteq> OutOfFuel"
proof (cases "readTag R d")
  case (Inl e)
  then show ?thesis
    by (simp add: unmarshal_def)
next
  case (Inr hdr)
  obtain name tag s1 where hdr: "hdr = ((name, tag), s1)"
    by (cases hdr) auto
  from readTag_rest(1) [of R d name tag s1] Inr hdr assms have "length s1 + 2 \<le> f"
    by simp
  from readValue_ends(1) [OF this, of R tag v] Inr hdr show ?thesis
    by (simp add: unmarshal_def)
qed

lemma Unmarshal_ends:
  assumes "\<And>R d. init W compression inp = Inr (R, d) \<Longrightarrow> length d + 2 \<le> f"
  shows "fst (Unmarshal f W compression inp v) \<noteq> OutOfFuel"
proof (cases "init W compression inp")
  case (Inl e)
  then show ?thesis
    by (simp add: Unmarshal_def)
next
  case (Inr p)
  obtain R d where p: "p = (R, d)"
    by (cases p) auto
  from Inr p have "length d + 2 \<le> f"
    by (intro assms [of R d]) simp
  from unmarshal_ends [OF this, of R v] Inr p show ?thesis
    by (auto simp: Unmarshal_def split: prod.splits)
qed

subsection \<open>The Int tag\<close>

lemma readValue_int32:
  "readValue R (Suc f) tagInt (VInt32 old) (be32 x @ s)
     = (Done, VInt32 (scast (ucast x :: 16 word)), s)"
  by (simp add: readValue.simps readPayload.simps readInt_def store_def)

text \<open>
  C1. Decoding an Int payload into an \<^verbatim>\<open>int32\<close> slot should store the 32-bit value of the
  wire. The code stores \<^verbatim>\<open>int64(int16(value))\<close>, so only the low 16 bits survive, sign
  extended (\<open>readValue_int32\<close>): the wire value 65536, bytes 00 01 00 00, is decoded as 0.
\<close>

theorem int32_decode_keeps_low_16_bits:
  "readValue R (Suc f) tagInt (VInt32 old) (be32 65536 @ s) = (Done, VInt32 0, s)
   \<and> be32 65536 = [0, 1, 0, 0]"
  using readValue_int32 [of R f old 65536 s] by (simp add: be32_def)

text \<open>
  C9. Decoding an Int payload into a \<^verbatim>\<open>uint32\<close> slot stores the 32-bit big-endian value
  of the wire unchanged, for every 32-bit value.
\<close>

theorem uint32_decode_exact:
  "readValue R (Suc f) tagInt (VUint32 old) (be32 x @ s) = (Done, VUint32 x, s)"
  by (simp add: readValue.simps readPayload.simps readInt_def store_def)

subsection \<open>Round trip\<close>

text \<open>
  C2. \<^verbatim>\<open>Unmarshal\<close> of what \<^verbatim>\<open>Marshal\<close> wrote should give the value back. For the
  \<^verbatim>\<open>int32\<close> value 65536 it does not: \<^verbatim>\<open>Marshal\<close> writes the tag, the empty name and
  00 01 00 00, and \<^verbatim>\<open>Unmarshal\<close> of these bytes into an \<^verbatim>\<open>int32\<close> stores 0.
\<close>

theorem int32_round_trip_fails:
  "Marshal W Uncompressed (Some []) (VInt32 65536) = (Done, Some [3, 0, 0, 0, 1, 0, 0])
   \<and> Unmarshal (Suc f) W Uncompressed (Some (R, [3, 0, 0, 0, 1, 0, 0])) (VInt32 old)
       = (Done, VInt32 0)"
  by (simp add: Marshal_def writeRootTag_def writeHeader_def writeValue_def w_def be16_def
        be32_def Unmarshal_def init_def unmarshal_def readTag_def readString_def Read_def r_def
        beword_def readValue.simps readPayload.simps readInt_def store_def)

subsection \<open>Array tags into slices and arrays\<close>

text \<open>
  C3, as the claim states it, fails: a slice of five bytes that receives a ByteArray of
  count 2 keeps its length 5; the first two elements are overwritten.
\<close>

theorem longer_slice_is_not_shrunk:
  "readValue bytesBuffer (Suc (Suc 0)) tagByteArray
      (VSlice TUint8 [VUint8 9, VUint8 9, VUint8 9, VUint8 9, VUint8 9]) (be32 2 @ [7, 8])
     = (Done, VSlice TUint8 [VUint8 7, VUint8 8, VUint8 9, VUint8 9, VUint8 9], [])
   \<and> length [VUint8 7, VUint8 8, VUint8 9, VUint8 9, VUint8 9] \<noteq> unat (2 :: 32 word)"
  by code_simp

text \<open>
  C3, amended. After a successful decode of a ByteArray, IntArray or LongArray of wire
  count \<open>n\<close> into a slice, the length of the slice is \<open>n\<close> when its length before the
  call, as a \<^verbatim>\<open>uint32\<close>, was less than \<open>n\<close>, and is its length before the call otherwise:
  the slice is grown to the count and never shrunk.
\<close>

theorem slice_length_after_array_decode:
  assumes tag: "tag = tagByteArray \<or> tag = tagIntArray \<or> tag = tagLongArray"
    and dec: "readValue R f tag (VSlice t xs) (be32 n @ s) = (Done, v', s')"
  shows "\<exists>ys. v' = VSlice t ys \<and>
           length ys = (if (of_nat (length xs) :: 32 word) < n then unat n else length xs)"
proof -
  obtain f' where f: "f = Suc f'"
    using dec by (cases f) (auto simp: readValue.simps)
  show ?thesis
    using tag dec unfolding f
    by (auto simp: readValue.simps readPayload.simps arrayTarget_def
             split: prod.splits if_splits sum.splits dest!: readIndexed_length)
qed

theorem slice_length_after_array_decode_witness:
  "(tagByteArray = tagByteArray \<or> tagByteArray = tagIntArray \<or> tagByteArray = tagLongArray)
   \<and> readValue bytesBuffer (Suc (Suc 0)) tagByteArray (VSlice TUint8 [VUint8 9])
        (be32 2 @ [7, 8])
        = (Done, VSlice TUint8 [VUint8 7, VUint8 8], [])
   \<and> (\<exists>ys. VSlice TUint8 [VUint8 7, VUint8 8] = VSlice TUint8 ys \<and>
          length ys = (if (of_nat (length [VUint8 9]) :: 32 word) < 2 then unat (2 :: 32 word)
                       else length [VUint8 9]))"
proof -
  have dec: "readValue bytesBuffer (Suc (Suc 0)) tagByteArray (VSlice TUint8 [VUint8 9])
               (be32 2 @ [7, 8])
               = (Done, VSlice TUint8 [VUint8 7, VUint8 8], [])"
    by code_simp
  from slice_length_after_array_decode [OF _ dec] dec show ?thesis
    by blast
qed

text \<open>
  C4. A ByteArray whose wire count exceeds the length of an array target fails with the
  capacity error; the array is as it was and the stream stands right behind the count,
  so no element has been read or stored.
\<close>

theorem byteArray_exceeds_array:
  assumes "length xs < unat n"
  shows "readValue R (Suc f) tagByteArray (VArray t xs) (be32 n @ s)
           = (Panic (ByteArrayTooLong n (length xs)), VArray t xs, s)"
  using of_nat_less_unat [OF assms]
  by (simp add: readValue.simps readPayload.simps arrayTarget_def)

theorem byteArray_exceeds_array_witness:
  "length [VUint8 0, VUint8 0, VUint8 0] < unat (5 :: 32 word) \<and>
   readValue bytesBuffer (Suc 0) tagByteArray (VArray TUint8 [VUint8 0, VUint8 0, VUint8 0])
       ([0, 0, 0, 5, 1, 2, 3, 4, 5])
     = (Panic (ByteArrayTooLong 5 3), VArray TUint8 [VUint8 0, VUint8 0, VUint8 0],
        [1, 2, 3, 4, 5])"
  using byteArray_exceeds_array
          [of "[VUint8 0, VUint8 0, VUint8 0]" 5 bytesBuffer 0 TUint8 "[1, 2, 3, 4, 5]"]
  by (simp add: be32_def)

subsection \<open>Compound into a record and into a map\<close>





text \<open>
  The six fixed-width tags in dynamic mode: the slot that \<^verbatim>\<open>allocate\<close> makes for the tag
  takes the payload, whatever its bytes, and the stream stands right behind it.
\<close>

lemma ucast_scast_8_64 [simp]: "(ucast (scast (y :: 8 word) :: 64 word) :: 8 word) = y"
  by (rule bit_word_eqI) (auto simp: bit_simps)

lemma ucast_scast_16_64_16 [simp]: "(ucast (scast (y :: 16 word) :: 64 word) :: 16 word) = y"
  by (rule bit_word_eqI) (auto simp: bit_simps)

lemma r_length: "length bs = n \<Longrightarrow> r n (bs @ s) = Inr (bs, s)"
  by (simp add: r_def)



text \<open>
  The header of an entry, as bytes: the tag, the length of the name in two bytes, and the
  name. \<^verbatim>\<open>readTag\<close> reads it back from a reader that delivers the name in the one call of
  \<^verbatim>\<open>Read\<close> and does not report the end of the stream along with it.
\<close>

lemma Read_whole:
  assumes "name = [] \<longrightarrow> s = [] \<longrightarrow> \<not> eofOnEmptyRead R"
    and "name \<noteq> [] \<longrightarrow> length name \<le> delivers R (length name) (name @ s)
                       \<and> (s = [] \<longrightarrow> \<not> eofWithLastBytes R)"
  shows "Read R (length name) (name @ s) = Inr (name, s)"
proof (cases "name = []")
  case True
  with assms(1) show ?thesis
    by (simp add: Read_def)
next
  case False
  then have pos: "1 \<le> length name"
    by (cases name) auto
  from False assms(2) have all: "length name \<le> delivers R (length name) (name @ s)"
    and last: "s = [] \<longrightarrow> \<not> eofWithLastBytes R"
    by blast+
  from pos all
  have k: "max 1 (min (delivers R (length name) (name @ s))
                   (min (length name) (length (name @ s)))) = length name"
    by simp
  show ?thesis
    unfolding Read_def Let_def k using False last by auto
qed

lemma readTag_header:
  assumes "tag \<noteq> tagEnd" and "length name < 65536"
    and "name = [] \<longrightarrow> s = [] \<longrightarrow> \<not> eofOnEmptyRead R"
    and "name \<noteq> [] \<longrightarrow> length name \<le> delivers R (length name) (name @ s)
                       \<and> (s = [] \<longrightarrow> \<not> eofWithLastBytes R)"
  shows "readTag R (tag # be16 (of_nat (length name)) @ name @ s) = Inr ((name, tag), s)"
proof -
  have hd: "r 1 (tag # be16 (of_nat (length name)) @ name @ s)
              = Inr ([tag], be16 (of_nat (length name)) @ name @ s)"
    by (simp add: r_def)
  have len: "r 2 (be16 (of_nat (length name)) @ name @ s)
               = Inr (be16 (of_nat (length name)), name @ s)"
    using r_length [of "be16 (of_nat (length name))" 2 "name @ s"] by simp
  have n: "unat (of_nat (length name) :: 16 word) = length name"
    using assms(2) by (simp add: unat_of_nat)
  have one: "(beword [tag] :: Tag) = tag"
    by (simp add: beword_def)
  from hd len n one assms(1) Read_whole [OF assms(3,4)] show ?thesis
    by (simp add: readTag_def readString_def)
qed

text \<open>
  An instance in which the undeclared entry is not the first: the record declares \<open>a\<close>,
  the Compound holds \<open>a\<close> and then \<open>b\<close>. The record has taken \<open>a\<close> when the decode fails
  at \<open>b\<close>; the map takes both.
\<close>

lemma undeclared_entry_behind_declared:
  "readValue bytesBuffer (Suc (Suc (Suc 0))) tagCompound (VStruct [([0x61], VInt8 0)])
      [1, 0, 1, 0x61, 5, 1, 0, 1, 0x62, 7, 0]
     = (Panic (AtStructField (UnhandledField tagByte) [0x62]), VStruct [([0x61], VInt8 5)],
        [7, 0])
   \<and> readValue bytesBuffer (Suc (Suc (Suc (Suc 0)))) tagCompound (VMap TInterface None)
      [1, 0, 1, 0x61, 5, 1, 0, 1, 0x62, 7, 0]
     = (Done,
        VMap TInterface
          (Some [([0x61], VIface (Some (VInt8 5))), ([0x62], VIface (Some (VInt8 7)))]),
        [])"
  by code_simp



subsection \<open>Encoding a list and a string\<close>

text \<open>
  A slice of \<^verbatim>\<open>int32\<close> is written as the List header, the element tag, the count and
  the four bytes of each element, nothing else.
\<close>

lemma writeListElems_int32:
  "writeListElems out tagInt TInt32 i (map VInt32 xs) = (Done, out @ concat (map be32 xs))"
  by (induction xs arbitrary: out i) (simp_all add: writeValue_def w_def)

lemma writeTag_int32_slice:
  "writeTag out name addr (VSlice TInt32 (map VInt32 xs))
     = (Done, out @ [tagList] @ be16 (of_nat (length name)) @ name
              @ [tagInt] @ be32 (of_nat (length xs)) @ concat (map be32 xs))"
  using writeListElems_int32 [of "out @ [tagList] @ be16 (of_nat (length name)) @ name
              @ [tagInt] @ be32 (of_nat (length xs))" 0 xs]
  by (simp add: writeHeader_def writeValue_def listTag_def)

text \<open>
  C6. The slice \<^verbatim>\<open>[]int32{1, 2, 3}\<close> written as the tag named \<^verbatim>\<open>a\<close> gives exactly the 21
  bytes 09, 00 01, \<^verbatim>\<open>a\<close>, 03, 00 00 00 03, and the three big-endian ints.
\<close>

theorem int32_list_bytes:
  "writeTag [] [0x61] False (VSlice TInt32 [VInt32 1, VInt32 2, VInt32 3])
     = (Done, [0x09, 0x00, 0x01, 0x61, 0x03, 0x00, 0x00, 0x00, 0x03,
               0x00, 0x00, 0x00, 0x01, 0x00, 0x00, 0x00, 0x02, 0x00, 0x00, 0x00, 0x03])
   \<and> length (snd (writeTag [] [0x61] False (VSlice TInt32 [VInt32 1, VInt32 2, VInt32 3])))
       = 21"
  by code_simp

text \<open>
  C7, as the claim states it for every string, fails: the prefix is the conversion
  \<^verbatim>\<open>uint16(len(s))\<close>, so a string of 65536 bytes is written with the prefix 00 00.
\<close>

theorem long_string_prefix_wraps:
  "writeValue [] tagString (VString (replicate 65536 0x61))
     = (Done, [0, 0] @ replicate 65536 0x61)
   \<and> unat (beword [0, 0] :: 16 word) \<noteq> length (replicate 65536 (0x61 :: byte))"
  by (simp add: writeValue_def be16_def beword_def)

text \<open>
  C7, amended. A string value is written as a two-byte big-endian prefix followed by
  exactly its bytes, with nothing behind them; the prefix is the number of bytes of the
  string modulo 65536, hence the number of bytes (not of code points) for every string
  shorter than 65536 bytes.
\<close>

theorem string_prefix_counts_bytes:
  "writeValue out tagString (VString str) = (Done, out @ be16 (of_nat (length str)) @ str)
   \<and> unat (beword (be16 (of_nat (length str))) :: 16 word) = length str mod 65536
   \<and> (length str < 65536 \<longrightarrow>
        unat (beword (be16 (of_nat (length str))) :: 16 word) = length str)"
  by (simp add: writeValue_def unat_of_nat)

text \<open>The instance: the six bytes of a text of four code points, two of them of two bytes.\<close>

theorem string_prefix_counts_bytes_witness:
  "length [0x61, 0x61, 0xC3, 0xA9, 0xC3, 0xA9 :: byte] < 65536
   \<and> writeValue [] tagString (VString [0x61, 0x61, 0xC3, 0xA9, 0xC3, 0xA9])
       = (Done, [0, 6, 0x61, 0x61, 0xC3, 0xA9, 0xC3, 0xA9])
   \<and> unat (beword [0, 6] :: 16 word) = 6"
  using string_prefix_counts_bytes [of "[]" "[0x61, 0x61, 0xC3, 0xA9, 0xC3, 0xA9]"]
  by (simp add: be16_def)

subsection \<open>The arguments of \<^verbatim>\<open>Marshal\<close>\<close>

text \<open>
  C8. \<^verbatim>\<open>Marshal\<close> returns the nil-stream error when the output stream is nil, whatever
  the mode (the stream is looked at first), and the unknown-compression error when the
  stream is there and the mode is none of the three. So a mode that is none of the three
  always gives an error. In all these cases the error is a returned value and the stream
  is as it was.
\<close>

theorem Marshal_rejects_nil_stream_and_unknown_mode:
  "Marshal W c None v = (Panic NilOutput, None)
   \<and> (c \<noteq> Uncompressed \<and> c \<noteq> GZip \<and> c \<noteq> ZLib \<longrightarrow>
        Marshal W c (Some buf) v = (Panic (UnknownCompression c), Some buf)
        \<and> (\<exists>e. Marshal W c out v = (Panic e, out)))"
  by (cases out) (simp_all add: Marshal_def)

theorem Marshal_rejects_nil_stream_and_unknown_mode_witness:
  "\<forall>W v. (7 :: Compression) \<noteq> Uncompressed \<and> (7 :: Compression) \<noteq> GZip
     \<and> (7 :: Compression) \<noteq> ZLib
     \<and> Marshal W 7 None v = (Panic NilOutput, None)
     \<and> Marshal W 7 (Some [1, 2]) v = (Panic (UnknownCompression 7), Some [1, 2])"
proof (intro allI)
  fix W v
  from Marshal_rejects_nil_stream_and_unknown_mode [of W 7 v "[1, 2]"]
  show "(7 :: Compression) \<noteq> Uncompressed \<and> (7 :: Compression) \<noteq> GZip
     \<and> (7 :: Compression) \<noteq> ZLib
     \<and> Marshal W 7 None v = (Panic NilOutput, None)
     \<and> Marshal W 7 (Some [1, 2]) v = (Panic (UnknownCompression 7), Some [1, 2])"
    by simp
qed

subsection \<open>Slots of kind \<^verbatim>\<open>int\<close> and \<^verbatim>\<open>uint\<close>\<close>

lemma readValue_int_uint:
  assumes "kindOf v = KInt \<or> kindOf v = KUint"
  shows "readValue R (Suc f) tag v s = (Panic IntUintUnsupported, v, s)"
  using assms by (simp only: readValue.simps if_True)

lemma Unmarshal_int_uint:
  assumes "kindOf v = KInt \<or> kindOf v = KUint"
  shows "Unmarshal (Suc f) W c inp v
           = (Panic (case init W c inp of
                       Inl e \<Rightarrow> e
                     | Inr (R, d) \<Rightarrow>
                         (case readTag R d of Inl e \<Rightarrow> e | Inr x \<Rightarrow> IntUintUnsupported)),
              v)"
  by (simp add: Unmarshal_def unmarshal_def readValue_int_uint [OF assms]
        split: sum.splits prod.splits)

lemma readStructFields_int_uint:
  assumes "kindOf v = KInt \<or> kindOf v = KUint"
    and "readTag R s = Inr ((name, tag), s1)" and "tag \<noteq> tagEnd" and "map_of fs name = Some v"
  shows "readStructFields R (Suc (Suc f)) fs prev s
           = (Panic (AtStructField IntUintUnsupported name), VStruct fs, s1)"
  using assms(2-4)
  by (simp add: update_triv readValue_int_uint [OF assms(1)])

lemma readListElems_int_uint:
  assumes "t = TInt \<or> t = TUint"
  shows "readListElems R (Suc f) inner t (Suc k) i acc s
           = (Panic (AtListIndex IntUintUnsupported i), acc, s)"
proof -
  have k: "kindOf (zero t) = KInt \<or> kindOf (zero t) = KUint"
    using assms by auto
  have slot: "listSlot t inner = Inr (zero t)"
    using assms by (auto simp: listSlot_def)
  show ?thesis
    by (simp add: slot readValue_int_uint [OF k])
qed

lemma readIndexed_int_uint:
  assumes "kindOf v = KInt \<or> kindOf v = KUint"
  shows "readIndexed R (Suc f) tag (v # xs) s = (Panic IntUintUnsupported, v # xs, s)"
  by (simp add: readValue_int_uint [OF assms])

text \<open>
  Behind a pointer the guard is not asked again: the \<^verbatim>\<open>switch tag\<close> runs on the fresh
  \<^verbatim>\<open>int\<close>, which no case accepts. A tag without a case ends in the \<^verbatim>\<open>default\<close> branch.
  The case of any other tag first reads what it reads ahead of its \<^verbatim>\<open>switch\<close> on the kind
  (the value of a fixed-width tag, the count of an array tag, the element tag and the
  count of a List; nothing for String and Compound), and then rejects the kind.
\<close>

lemma r_short:
  "length s < n \<Longrightarrow> r n s = Inl (if s = [] then EOF else ErrUnexpectedEOF)"
  by (simp add: r_def)

lemma r_enough: "n \<le> length s \<Longrightarrow> r n s = Inr (take n s, drop n s)"
  by (simp add: r_def)

lemma readPayload_int_uint:
  assumes "kindOf v = KInt \<or> kindOf v = KUint"
  shows "readPayload R f settable tag v s =
           (if tag \<notin> {tagByte, tagShort, tagInt, tagLong, tagFloat, tagDouble, tagByteArray,
                       tagString, tagList, tagCompound, tagIntArray, tagLongArray}
            then (Panic (UnhandledTag tag), v, s)
            else
              let n = (if tag = tagByte then 1 else if tag = tagShort then 2
                       else if tag = tagLong \<or> tag = tagDouble then 8
                       else if tag = tagString \<or> tag = tagCompound then 0
                       else if tag = tagList then 5 else 4)
              in if length s < n then
                   (Panic (if s = [] \<or> tag = tagList \<and> length s = 1 then EOF
                           else ErrUnexpectedEOF), v, [])
                 else (Panic (TagKindMismatch tag (kindOf v)), v, drop n s))"
proof -
  have kinds: "kindOf v \<noteq> KBool" "kindOf v \<noteq> KInt8" "kindOf v \<noteq> KUint8" "kindOf v \<noteq> KInt16"
    "kindOf v \<noteq> KUint16" "kindOf v \<noteq> KInt32" "kindOf v \<noteq> KUint32" "kindOf v \<noteq> KInt64"
    "kindOf v \<noteq> KUint64" "kindOf v \<noteq> KFloat32" "kindOf v \<noteq> KFloat64" "kindOf v \<noteq> KString"
    "kindOf v \<noteq> KArray" "kindOf v \<noteq> KSlice" "kindOf v \<noteq> KStruct" "kindOf v \<noteq> KMap"
    using assms by auto
  have target: "arrayTarget settable tag' n v = Inl (TagKindMismatch tag' (kindOf v))" for tag' n
    using kinds by (simp add: arrayTarget_def)
  have rd: "r n s = (if length s < n then Inl (if s = [] then EOF else ErrUnexpectedEOF)
                     else Inr (take n s, drop n s))" for n
    by (simp add: r_def)
  consider (fixed) "tag = tagByte \<or> tag = tagShort \<or> tag = tagInt \<or> tag = tagLong
                    \<or> tag = tagFloat \<or> tag = tagDouble"
    | (arr) "tag = tagByteArray \<or> tag = tagIntArray \<or> tag = tagLongArray"
    | (str) "tag = tagString \<or> tag = tagCompound"
    | (lst) "tag = tagList"
    | (other) "tag \<notin> {tagByte, tagShort, tagInt, tagLong, tagFloat, tagDouble, tagByteArray,
                       tagString, tagList, tagCompound, tagIntArray, tagLongArray}"
    by auto
  then show ?thesis
  proof cases
    case fixed
    then show ?thesis
      by (auto simp: readPayload.simps readByte_def readShort_def readInt_def readLong_def
            readFloat_def readDouble_def rd kinds)
  next
    case arr
    then show ?thesis
      using target [of tag] by (auto simp: readPayload.simps rd kinds)
  next
    case str
    then show ?thesis
      by (auto simp: readPayload.simps readStringValue_def kinds)
  next
    case lst
    have two: "r 4 (drop 1 s) = (if length s < 5 then Inl (if length s = 1 then EOF
                                                          else ErrUnexpectedEOF)
                                 else Inr (take 4 (drop 1 s), drop 5 s))"
      if "1 \<le> length s"
      using that by (auto simp: r_def)
    show ?thesis
    proof (cases "length s < 1")
      case True
      with lst show ?thesis
        by (simp add: readPayload.simps r_def)
    next
      case False
      with lst two show ?thesis
        by (auto simp: readPayload.simps rd kinds)
    qed
  next
    case other
    then show ?thesis
      by (simp add: readPayload.simps)
  qed
qed

lemma typeOf_int_uint:
  "kindOf v = KInt \<or> kindOf v = KUint \<Longrightarrow> typeOf v = TInt \<or> typeOf v = TUint"
  by (cases v) auto

lemma zero_typeOf_int_uint:
  "kindOf v = KInt \<or> kindOf v = KUint \<Longrightarrow> kindOf (zero (typeOf v)) = kindOf v"
  by (cases v) auto

lemma readValue_ptr_int_uint:
  assumes "kindOf v = KInt \<or> kindOf v = KUint"
  shows "readValue R (Suc f) tag (VPtr (typeOf v) p) s =
           (case readPayload R f True tag (zero (typeOf v)) s of
              (out, x, s') \<Rightarrow> (out, VPtr (typeOf v) (Some x), s'))"
  by (simp add: readValue.simps)

lemma readValue_ptr_int_uint_error:
  assumes "kindOf v = KInt \<or> kindOf v = KUint"
  shows "\<exists>e s'. readValue R (Suc f) tag (VPtr (typeOf v) p) s
                   = (Panic e, VPtr (typeOf v) (Some (zero (typeOf v))), s')
               \<and> e \<noteq> IntUintUnsupported"
proof -
  from assms have k: "kindOf (zero (typeOf v)) = KInt \<or> kindOf (zero (typeOf v)) = KUint"
    by (simp add: zero_typeOf_int_uint)
  show ?thesis
    unfolding readValue_ptr_int_uint [OF assms] readPayload_int_uint [OF k]
    by (simp add: Let_def)
qed

lemma Unmarshal_ptr_int_uint:
  assumes "kindOf v = KInt \<or> kindOf v = KUint"
  shows "\<exists>e v'. Unmarshal (Suc f) W c inp (VPtr (typeOf v) p) = (Panic e, v')
               \<and> e \<noteq> IntUintUnsupported"
proof (cases "init W c inp")
  case (Inl e)
  then have "e \<noteq> IntUintUnsupported"
    by (auto simp: init_def split: option.splits prod.splits if_splits)
  with Inl show ?thesis
    by (simp add: Unmarshal_def)
next
  case (Inr st)
  obtain R d where st: "st = (R, d)"
    by (cases st) auto
  show ?thesis
  proof (cases "readTag R d")
    case (Inl e)
    then have "e = EOF \<or> e = ErrUnexpectedEOF"
      by (auto simp: readTag_def readString_def Read_def Let_def
               split: sum.splits prod.splits if_splits dest: r_Inl)
    with Inl Inr st show ?thesis
      by (auto simp: Unmarshal_def unmarshal_def)
  next
    case hdr: (Inr h)
    obtain name tag s1 where h: "h = ((name, tag), s1)"
      by (cases h) auto
    from readValue_ptr_int_uint_error [OF assms, of R f tag p s1]
    obtain e s' where "readValue R (Suc f) tag (VPtr (typeOf v) p) s1
                         = (Panic e, VPtr (typeOf v) (Some (zero (typeOf v))), s')"
      and "e \<noteq> IntUintUnsupported"
      by blast
    with hdr h Inr st show ?thesis
      by (simp add: Unmarshal_def unmarshal_def)
  qed
qed

text \<open>
  C10, as the claim states it for any slot reached during the decode, fails for an
  \<^verbatim>\<open>int\<close> reached through a pointer: for a \<^verbatim>\<open>*int\<close> target the pointer is set to a fresh
  \<^verbatim>\<open>int\<close>, so a value is written, and the error is not the message about \<^verbatim>\<open>int32\<close> and
  \<^verbatim>\<open>uint32\<close>: it is the tag and kind mismatch for the Int tag, and the unhandled-tag
  error for a tag that has no case.
\<close>

theorem int_behind_pointer_gets_other_error:
  "readValue bytesBuffer (Suc 0) tagInt (VPtr TInt None) [0, 0, 0, 1]
     = (Panic (TagKindMismatch tagInt KInt), VPtr TInt (Some (VInt 0)), [])
   \<and> TagKindMismatch tagInt KInt \<noteq> IntUintUnsupported
   \<and> readValue bytesBuffer (Suc 0) 13 (VPtr TInt None) [1, 2]
     = (Panic (UnhandledTag 13), VPtr TInt (Some (VInt 0)), [1, 2])
   \<and> UnhandledTag 13 \<noteq> IntUintUnsupported
   \<and> VPtr TInt (Some (VInt 0)) \<noteq> VPtr TInt None"
  by code_simp

text \<open>
  C10, amended. A slot of kind \<^verbatim>\<open>int\<close> or \<^verbatim>\<open>uint\<close> that is handed to \<^verbatim>\<open>readValue\<close> makes
  the call panic with the message that names \<^verbatim>\<open>int32\<close> and \<^verbatim>\<open>uint32\<close>, whatever the tag
  and the stream, and leaves the slot and the stream as they were. So \<^verbatim>\<open>Unmarshal\<close> into
  such a variable always returns an error and leaves the variable as it was (the error
  is that message once the stream has been opened and the root header read); a struct
  field, a list element and an element of an array or slice of such a kind give the same
  panic, the first two under their breadcrumb.

  An \<^verbatim>\<open>int\<close> or \<^verbatim>\<open>uint\<close> behind a pointer slot also always fails, but never with that
  message, and after the pointer has been set to a fresh zero value. The error is the
  unhandled-tag error when the tag is none of the twelve that have a case; otherwise it
  is \<^verbatim>\<open>io.EOF\<close> or \<^verbatim>\<open>io.ErrUnexpectedEOF\<close> when the stream ends within the bytes that the
  case of the tag reads ahead of its look at the kind, and the tag and kind mismatch
  behind those bytes otherwise. \<^verbatim>\<open>Unmarshal\<close> into a pointer to such a variable returns an
  error that is not that message either.
\<close>

theorem int_uint_slot_rejected:
  assumes "kindOf v = KInt \<or> kindOf v = KUint"
  shows "readValue R (Suc f) tag v s = (Panic IntUintUnsupported, v, s)
     \<and> Unmarshal (Suc f) W c inp v
         = (Panic (case init W c inp of
                     Inl e \<Rightarrow> e
                   | Inr (R', d) \<Rightarrow>
                       (case readTag R' d of Inl e \<Rightarrow> e | Inr x \<Rightarrow> IntUintUnsupported)),
            v)
     \<and> (\<forall>fs name tag' s1 prev.
           readTag R s = Inr ((name, tag'), s1) \<and> tag' \<noteq> tagEnd \<and> map_of fs name = Some v \<longrightarrow>
           readStructFields R (Suc (Suc f)) fs prev s
             = (Panic (AtStructField IntUintUnsupported name), VStruct fs, s1))
     \<and> readListElems R (Suc f) inner (typeOf v) (Suc k) i acc s
         = (Panic (AtListIndex IntUintUnsupported i), acc, s)
     \<and> readIndexed R (Suc f) tag (v # xs) s = (Panic IntUintUnsupported, v # xs, s)
     \<and> readValue R (Suc f) tag (VPtr (typeOf v) p) s
         = (if tag \<notin> {tagByte, tagShort, tagInt, tagLong, tagFloat, tagDouble, tagByteArray,
                       tagString, tagList, tagCompound, tagIntArray, tagLongArray}
            then (Panic (UnhandledTag tag), VPtr (typeOf v) (Some (zero (typeOf v))), s)
            else
              let n = (if tag = tagByte then 1 else if tag = tagShort then 2
                       else if tag = tagLong \<or> tag = tagDouble then 8
                       else if tag = tagString \<or> tag = tagCompound then 0
                       else if tag = tagList then 5 else 4)
              in if length s < n then
                   (Panic (if s = [] \<or> tag = tagList \<and> length s = 1 then EOF
                           else ErrUnexpectedEOF),
                    VPtr (typeOf v) (Some (zero (typeOf v))), [])
                 else (Panic (TagKindMismatch tag (kindOf v)),
                       VPtr (typeOf v) (Some (zero (typeOf v))), drop n s))
     \<and> (\<exists>e s'. readValue R (Suc f) tag (VPtr (typeOf v) p) s
                  = (Panic e, VPtr (typeOf v) (Some (zero (typeOf v))), s')
               \<and> e \<noteq> IntUintUnsupported)
     \<and> (\<exists>e v'. Unmarshal (Suc f) W c inp (VPtr (typeOf v) p) = (Panic e, v')
               \<and> e \<noteq> IntUintUnsupported)"
proof (intro conjI allI impI)
  show "readValue R (Suc f) tag v s = (Panic IntUintUnsupported, v, s)"
    by (rule readValue_int_uint [OF assms])
  show "Unmarshal (Suc f) W c inp v
         = (Panic (case init W c inp of
                     Inl e \<Rightarrow> e
                   | Inr (R', d) \<Rightarrow>
                       (case readTag R' d of Inl e \<Rightarrow> e | Inr x \<Rightarrow> IntUintUnsupported)),
            v)"
    by (rule Unmarshal_int_uint [OF assms])
  show "readStructFields R (Suc (Suc f)) fs name' s
          = (Panic (AtStructField IntUintUnsupported name), VStruct fs, s1)"
    if "readTag R s = Inr ((name, tag'), s1) \<and> tag' \<noteq> tagEnd \<and> map_of fs name = Some v"
    for fs name tag' s1 name'
    using that readStructFields_int_uint [OF assms, of R s name tag' s1 fs f name'] by blast
  show "readListElems R (Suc f) inner (typeOf v) (Suc k) i acc s
         = (Panic (AtListIndex IntUintUnsupported i), acc, s)"
    by (rule readListElems_int_uint [OF typeOf_int_uint [OF assms]])
  show "readIndexed R (Suc f) tag (v # xs) s = (Panic IntUintUnsupported, v # xs, s)"
    by (rule readIndexed_int_uint [OF assms])
  from assms have k: "kindOf (zero (typeOf v)) = KInt \<or> kindOf (zero (typeOf v)) = KUint"
    by (simp add: zero_typeOf_int_uint)
  show "readValue R (Suc f) tag (VPtr (typeOf v) p) s
         = (if tag \<notin> {tagByte, tagShort, tagInt, tagLong, tagFloat, tagDouble, tagByteArray,
                       tagString, tagList, tagCompound, tagIntArray, tagLongArray}
            then (Panic (UnhandledTag tag), VPtr (typeOf v) (Some (zero (typeOf v))), s)
            else
              let n = (if tag = tagByte then 1 else if tag = tagShort then 2
                       else if tag = tagLong \<or> tag = tagDouble then 8
                       else if tag = tagString \<or> tag = tagCompound then 0
                       else if tag = tagList then 5 else 4)
              in if length s < n then
                   (Panic (if s = [] \<or> tag = tagList \<and> length s = 1 then EOF
                           else ErrUnexpectedEOF),
                    VPtr (typeOf v) (Some (zero (typeOf v))), [])
                 else (Panic (TagKindMismatch tag (kindOf v)),
                       VPtr (typeOf v) (Some (zero (typeOf v))), drop n s))"
    unfolding readValue_ptr_int_uint [OF assms] readPayload_int_uint [OF k]
    by (simp add: Let_def zero_typeOf_int_uint [OF assms])
  show "\<exists>e s'. readValue R (Suc f) tag (VPtr (typeOf v) p) s
                  = (Panic e, VPtr (typeOf v) (Some (zero (typeOf v))), s')
               \<and> e \<noteq> IntUintUnsupported"
    by (rule readValue_ptr_int_uint_error [OF assms])
  show "\<exists>e v'. Unmarshal (Suc f) W c inp (VPtr (typeOf v) p) = (Panic e, v')
               \<and> e \<noteq> IntUintUnsupported"
    by (rule Unmarshal_ptr_int_uint [OF assms])
qed

text \<open>
  The instance: an \<^verbatim>\<open>int\<close> variable of value 5 as the root target and as the field \<open>a\<close> of
  a record, and a nil \<^verbatim>\<open>*int\<close> under the Int tag, under a tag without a case, and under the
  Long tag with two bytes left.
\<close>

theorem int_uint_slot_rejected_witness:
  "\<forall>W. (kindOf (VInt 5) = KInt \<or> kindOf (VInt 5) = KUint)
     \<and> readValue bytesBuffer (Suc 0) tagInt (VInt 5) [0, 0, 0, 1]
         = (Panic IntUintUnsupported, VInt 5, [0, 0, 0, 1])
     \<and> Unmarshal (Suc 0) W Uncompressed (Some (bytesBuffer, [3, 0, 0, 0, 0, 0, 1])) (VInt 5)
         = (Panic IntUintUnsupported, VInt 5)
     \<and> readTag bytesBuffer [3, 0, 1, 0x61, 0, 0, 0, 1] = Inr (([0x61], tagInt), [0, 0, 0, 1])
     \<and> tagInt \<noteq> tagEnd
     \<and> map_of [([0x61 :: byte], VInt 5)] [0x61] = Some (VInt 5)
     \<and> readStructFields bytesBuffer (Suc (Suc 0)) [([0x61], VInt 5)] []
           [3, 0, 1, 0x61, 0, 0, 0, 1]
         = (Panic (AtStructField IntUintUnsupported [0x61]), VStruct [([0x61], VInt 5)],
            [0, 0, 0, 1])
     \<and> readValue bytesBuffer (Suc 0) tagInt (VPtr TInt None) [0, 0, 0, 1]
         = (Panic (TagKindMismatch tagInt KInt), VPtr TInt (Some (VInt 0)), [])
     \<and> readValue bytesBuffer (Suc 0) 13 (VPtr TInt None) [1, 2]
         = (Panic (UnhandledTag 13), VPtr TInt (Some (VInt 0)), [1, 2])
     \<and> readValue bytesBuffer (Suc 0) tagLong (VPtr TInt None) [1, 2]
         = (Panic ErrUnexpectedEOF, VPtr TInt (Some (VInt 0)), [])"
proof (intro allI)
  fix W
  have k: "kindOf (VInt 5) = KInt \<or> kindOf (VInt 5) = KUint"
    by simp
  have root: "readTag bytesBuffer [3, 0, 0, 0, 0, 0, 1] = Inr (([], tagInt), [0, 0, 0, 1])"
    by code_simp
  have hdr: "readTag bytesBuffer [3, 0, 1, 0x61, 0, 0, 0, 1]
               = Inr (([0x61], tagInt), [0, 0, 0, 1])"
    by code_simp
  have tag: "tagInt \<noteq> tagEnd"
    by simp
  have field: "map_of [([0x61 :: byte], VInt 5)] [0x61] = Some (VInt 5)"
    by simp
  note inst = int_uint_slot_rejected [OF k, where R = bytesBuffer and f = 0 and p = None
                and W = W and c = Uncompressed]
  from inst [where tag = tagInt and s = "[0, 0, 0, 1]"
               and inp = "Some (bytesBuffer, [3, 0, 0, 0, 0, 0, 1])"]
  have direct: "readValue bytesBuffer (Suc 0) tagInt (VInt 5) [0, 0, 0, 1]
          = (Panic IntUintUnsupported, VInt 5, [0, 0, 0, 1])"
    and whole: "Unmarshal (Suc 0) W Uncompressed (Some (bytesBuffer, [3, 0, 0, 0, 0, 0, 1]))
            (VInt 5)
          = (Panic IntUintUnsupported, VInt 5)"
    and ptr_int: "readValue bytesBuffer (Suc 0) tagInt (VPtr TInt None) [0, 0, 0, 1]
         = (Panic (TagKindMismatch tagInt KInt), VPtr TInt (Some (VInt 0)), [])"
    by (simp_all add: init_def root)
  from inst [where s = "[3, 0, 1, 0x61, 0, 0, 0, 1]"] hdr tag field
  have in_struct: "readStructFields bytesBuffer (Suc (Suc 0)) [([0x61], VInt 5)] []
           [3, 0, 1, 0x61, 0, 0, 0, 1]
         = (Panic (AtStructField IntUintUnsupported [0x61]), VStruct [([0x61], VInt 5)],
            [0, 0, 0, 1])"
    by blast
  from inst [where tag = 13 and s = "[1, 2]"]
  have ptr_other: "readValue bytesBuffer (Suc 0) 13 (VPtr TInt None) [1, 2]
         = (Panic (UnhandledTag 13), VPtr TInt (Some (VInt 0)), [1, 2])"
    by simp
  from inst [where tag = tagLong and s = "[1, 2]"]
  have ptr_short: "readValue bytesBuffer (Suc 0) tagLong (VPtr TInt None) [1, 2]
         = (Panic ErrUnexpectedEOF, VPtr TInt (Some (VInt 0)), [])"
    by simp
  from k direct whole hdr tag field in_struct ptr_int ptr_other ptr_short
  show "(kindOf (VInt 5) = KInt \<or> kindOf (VInt 5) = KUint)
     \<and> readValue bytesBuffer (Suc 0) tagInt (VInt 5) [0, 0, 0, 1]
         = (Panic IntUintUnsupported, VInt 5, [0, 0, 0, 1])
     \<and> Unmarshal (Suc 0) W Uncompressed (Some (bytesBuffer, [3, 0, 0, 0, 0, 0, 1])) (VInt 5)
         = (Panic IntUintUnsupported, VInt 5)
     \<and> readTag bytesBuffer [3, 0, 1, 0x61, 0, 0, 0, 1] = Inr (([0x61], tagInt), [0, 0, 0, 1])
     \<and> tagInt \<noteq> tagEnd
     \<and> map_of [([0x61 :: byte], VInt 5)] [0x61] = Some (VInt 5)
     \<and> readStructFields bytesBuffer (Suc (Suc 0)) [([0x61], VInt 5)] []
           [3, 0, 1, 0x61, 0, 0, 0, 1]
         = (Panic (AtStructField IntUintUnsupported [0x61]), VStruct [([0x61], VInt 5)],
            [0, 0, 0, 1])
     \<and> readValue bytesBuffer (Suc 0) tagInt (VPtr TInt None) [0, 0, 0, 1]
         = (Panic (TagKindMismatch tagInt KInt), VPtr TInt (Some (VInt 0)), [])
     \<and> readValue bytesBuffer (Suc 0) 13 (VPtr TInt None) [1, 2]
         = (Panic (UnhandledTag 13), VPtr TInt (Some (VInt 0)), [1, 2])
     \<and> readValue bytesBuffer (Suc 0) tagLong (VPtr TInt None) [1, 2]
         = (Panic ErrUnexpectedEOF, VPtr TInt (Some (VInt 0)), [])"
    by (intro conjI)
qed

end
